theory Spec2Isabelle
  imports Main "HOL-Library.Word"
begin

section \<open>Indexed FASTA access: the model of encoding/fasta/fasta_indexed.go\<close>

text \<open>
  Go strings and byte slices are sequences of bytes: both are modelled as \<open>string\<close>
  (a list of 8-bit characters). \<open>uint64\<close> is \<open>64 word\<close>, so that \<open>+\<close>, \<open>-\<close>
  and \<open>*\<close> wrap around as in Go. \<open>int\<close> and \<open>int64\<close> (both 64 bits wide on the
  platforms the package is built for) are modelled as HOL integers together with the explicit
  wrap-around \<open>wrap64\<close>; the conversions \<open>int64(x)\<close> and \<open>int(x)\<close> of a \<open>uint64\<close>
  are \<open>sint\<close>.
\<close>

type_synonym uint64 = "64 word"

definition wrap64 :: "int \<Rightarrow> int" where
  "wrap64 x = signed_take_bit 63 x"

subsection \<open>Data model\<close>

record indexEntry =
  name :: string
  length_e :: uint64
  offset :: uint64
  lineBase :: uint64
  lineWidth :: uint64

text \<open>
  Every error of the source is an \<open>fmt.Errorf\<close> value; the constructors name the message
  each one carries.
  \<^item> \<open>FormatError l\<close>: "Invalid index line: l"
  \<^item> \<open>NotFoundError n\<close>: "sequence not found in index: n"
  \<^item> \<open>InvalidRangeError\<close>: "start must be less than end"
  \<^item> \<open>OutOfBoundsError n l\<close>: "end is past end of sequence n: l"
  \<^item> \<open>UnexpectedEndOfStreamError\<close>: "encountered unexpected end of file ..."
  \<^item> \<open>SeekError\<close>: "failed to seek to offset ..."
  \<^item> \<open>ReadError\<close>: an error of the reader other than \<open>io.EOF\<close>, passed on as it is
\<close>

datatype error =
    FormatError string
  | NotFoundError string
  | InvalidRangeError
  | OutOfBoundsError string uint64
  | UnexpectedEndOfStreamError
  | SeekError
  | ReadError

text \<open>The run-time panics the code can raise.\<close>

datatype panic =
    DivideByZero
  | IndexOutOfRange
  | SliceBoundsOutOfRange
  | NilDereference
  | MustNil
  | PanicOff int

datatype failure = Error error | Panic panic

text \<open>
  \<open>opts.Enc\<close> selects the post-processing of the extracted bases. The source tests it for
  \<open>CleanASCII\<close> and \<open>Seq8\<close> only; every other value leaves the bytes as they were read.
\<close>

datatype encoding = CleanASCII | Seq8 | OtherEncoding

record opts =
  Enc :: encoding

text \<open>
  The package \<open>biosimd\<close> is not part of the sources at hand. Its two functions rewrite the
  slice they are given in place; they are taken as parameters, and nothing is assumed of them.
\<close>

record biosimd =
  CleanASCIISeqInplace :: "string \<Rightarrow> string"
  ASCIIToSeq8Inplace :: "string \<Rightarrow> string"

text \<open>
  A Go slice that starts at the beginning of its backing array: \<open>arr\<close> is the backing array
  (its length is the capacity of the slice) and \<open>len\<close> the length of the slice. The \<open>nil\<close>
  slice is \<open>nilSlice\<close>.
\<close>

record slice =
  arr :: string
  len :: nat

definition nilSlice :: slice where
  "nilSlice = \<lparr>arr = [], len = 0\<rparr>"

definition bytesOf :: "slice \<Rightarrow> string" where
  "bytesOf b = take (len b) (arr b)"

text \<open>
  The byte source (\<open>io.ReadSeeker\<close>) is an external collaborator. It is modelled as an
  in-memory source in the manner of \<open>bytes.Reader\<close>: \<open>Seek\<close> to a negative position fails,
  every other position is accepted; \<open>Read\<close> delivers as many of the remaining bytes as the
  buffer takes, and \<open>io.EOF\<close> with no bytes once the position is at or past the end.
\<close>

record readSeeker =
  content :: string
  pos :: int

datatype readErr = EOF | OtherReadErr

definition Seek :: "readSeeker \<Rightarrow> int \<Rightarrow> readSeeker \<times> int option" where
  "Seek r off = (if off < 0 then (r, None) else (r\<lparr>pos := off\<rparr>, Some off))"

definition Read :: "readSeeker \<Rightarrow> nat \<Rightarrow> readSeeker \<times> string \<times> readErr option" where
  "Read r k =
     (if int (length (content r)) \<le> pos r then (r, [], Some EOF)
      else (let bs = take k (drop (nat (pos r)) (content r))
            in (r\<lparr>pos := pos r + int (length bs)\<rparr>, bs, None)))"

record indexedFasta =
  seqs :: "string \<rightharpoonup> indexEntry"
  opts :: opts
  reader :: "readSeeker option"
  bufOff :: int
  buf :: slice
  resultBuf :: slice

subsection \<open>The index pattern\<close>

text \<open>
  \<open>indexRegExp\<close> is \<^verbatim>\<open>(\S+)\t(\d+)\t(\d+)\t(\d+)\t(\d+)\<close>, not anchored.
  In Go's syntax \<^verbatim>\<open>\s\<close> is the class of tab, newline, form feed, carriage return and
  space, and \<^verbatim>\<open>\d\<close> the ASCII digits. Every byte of a multi-byte UTF-8 character is
  outside both classes, so matching bytes and matching characters find the same fields.
\<close>

definition TAB :: char where "TAB = CHR 0x09"
definition LF :: char where "LF = CHR 0x0A"
definition FF :: char where "FF = CHR 0x0C"
definition CR :: char where "CR = CHR 0x0D"

definition isSpace :: "char \<Rightarrow> bool" where
  "isSpace c = (c = TAB \<or> c = LF \<or> c = FF \<or> c = CR \<or> c = CHR '' '')"

definition notSpace :: "char \<Rightarrow> bool" where
  "notSpace c = (\<not> isSpace c)"

definition isDigit :: "char \<Rightarrow> bool" where
  "isDigit c = (48 \<le> (of_char c :: nat) \<and> (of_char c :: nat) \<le> 57)"

text \<open>
  A tab followed by a run of digits. A run of digits that is followed by a tab, or that is
  the greedy last group, is always the longest run.
\<close>

definition tabDigits :: "string \<Rightarrow> (string \<times> string) option" where
  "tabDigits s =
     (case s of
        [] \<Rightarrow> None
      | c # r \<Rightarrow>
          if c = TAB \<and> takeWhile isDigit r \<noteq> []
          then Some (takeWhile isDigit r, dropWhile isDigit r)
          else None)"

text \<open>
  A match that starts at the head of the string: the submatches, the whole match first.
  \<^verbatim>\<open>\S+\<close> has to stop at a tab, and no \<^verbatim>\<open>\S\<close> is a tab: it takes the whole run.
\<close>

definition matchHere :: "string \<Rightarrow> string list option" where
  "matchHere s =
     (let nm = takeWhile notSpace s in
      if nm = [] then None
      else
        (case tabDigits (dropWhile notSpace s) of
           None \<Rightarrow> None
         | Some (d1, r1) \<Rightarrow>
             (case tabDigits r1 of
                None \<Rightarrow> None
              | Some (d2, r2) \<Rightarrow>
                  (case tabDigits r2 of
                     None \<Rightarrow> None
                   | Some (d3, r3) \<Rightarrow>
                       (case tabDigits r3 of
                          None \<Rightarrow> None
                        | Some (d4, r4) \<Rightarrow>
                            Some [nm @ TAB # d1 @ TAB # d2 @ TAB # d3 @ TAB # d4,
                                  nm, d1, d2, d3, d4])))))"

text \<open>
  \<open>indexRegExp.FindStringSubmatch\<close>: the leftmost match, \<open>nil\<close> (the empty list) when
  there is none.
\<close>

fun FindStringSubmatch :: "string \<Rightarrow> string list" where
  "FindStringSubmatch [] = []"
| "FindStringSubmatch (c # s) =
     (case matchHere (c # s) of
        Some m \<Rightarrow> m
      | None \<Rightarrow> FindStringSubmatch s)"

text \<open>
  \<open>strconv.ParseUint(s, 10, 64)\<close>: the value of a non-empty string of digits that is
  below \<open>2^64\<close>, an error otherwise.
\<close>

definition digitVal :: "char \<Rightarrow> nat" where
  "digitVal c = of_char c - 48"

definition decimal :: "string \<Rightarrow> nat" where
  "decimal s = foldl (\<lambda>acc c. 10 * acc + digitVal c) 0 s"

datatype numError = ErrSyntax | ErrRange

definition ParseUint :: "string \<Rightarrow> numError + uint64" where
  "ParseUint s =
     (if s = [] then Inl ErrSyntax
      else if list_ex (\<lambda>c. \<not> isDigit c) s then Inl ErrSyntax
      else if decimal s < 2 ^ 64 then Inr (of_nat (decimal s))
      else Inl ErrRange)"

subsection \<open>Reading the index\<close>

text \<open>
  \<open>bufio.Scanner\<close> with \<open>bufio.ScanLines\<close>: a line ends at a newline; one carriage
  return before it is dropped; the last line needs no newline when it is not empty. A line of
  \<open>MaxScanTokenSize\<close> bytes or more does not fit the scanner's buffer: \<open>Scan\<close>
  returns false there, as it does at the end of the input.
\<close>

definition MaxScanTokenSize :: nat where
  "MaxScanTokenSize = 65536"

definition dropCR :: "string \<Rightarrow> string" where
  "dropCR s = (if s \<noteq> [] \<and> last s = CR then butlast s else s)"

definition notLF :: "char \<Rightarrow> bool" where
  "notLF c = (c \<noteq> LF)"

function scanLines :: "string \<Rightarrow> string list" where
  "scanLines inp =
     (if inp = [] then []
      else if MaxScanTokenSize \<le> length (takeWhile notLF inp) then []
      else dropCR (takeWhile notLF inp) # scanLines (tl (dropWhile notLF inp)))"
  by pat_completeness auto
termination
proof (relation "measure length")
  show "wf (measure length)" by simp
next
  fix inp :: string
  assume ne: "inp \<noteq> []"
  have le: "length (dropWhile notLF inp) \<le> length inp"
    by (rule length_dropWhile_le)
  have "length (tl (dropWhile notLF inp)) < length inp"
  proof (cases "dropWhile notLF inp")
    case Nil
    have "tl (dropWhile notLF inp) = []"
      unfolding Nil by simp
    then show ?thesis using ne by simp
  next
    case (Cons c r)
    have "length (tl (dropWhile notLF inp)) < length (dropWhile notLF inp)"
      unfolding Cons by simp
    then show ?thesis using le by linarith
  qed
  then show "(tl (dropWhile notLF inp), inp) \<in> measure length"
    by simp
qed

text \<open>
  The loop of \<open>parseIndex\<close> over the scanned lines. \<open>must.Nil\<close> panics when
  \<open>ParseUint\<close> fails. The result is the pair the function returns.
\<close>

fun parseLines :: "string list \<Rightarrow> indexEntry list \<Rightarrow> panic + (indexEntry list \<times> error option)" where
  "parseLines [] entries = Inr (entries, None)"
| "parseLines (t # ts) entries =
     (let matches = FindStringSubmatch t in
      if length matches \<noteq> 6 then Inr ([], Some (FormatError t))
      else
        (case ParseUint (matches ! 2) of
           Inl e \<Rightarrow> Inl MustNil
         | Inr l \<Rightarrow>
             (case ParseUint (matches ! 3) of
                Inl e \<Rightarrow> Inl MustNil
              | Inr off \<Rightarrow>
                  (case ParseUint (matches ! 4) of
                     Inl e \<Rightarrow> Inl MustNil
                   | Inr lb \<Rightarrow>
                       (case ParseUint (matches ! 5) of
                          Inl e \<Rightarrow> Inl MustNil
                        | Inr lw \<Rightarrow>
                            parseLines ts
                              (entries @ [\<lparr>name = matches ! 1, length_e = l, offset = off,
                                           lineBase = lb, lineWidth = lw\<rparr>]))))))"

definition parseIndex :: "string \<Rightarrow> panic + (indexEntry list \<times> error option)" where
  "parseIndex r = parseLines (scanLines r) []"

subsection \<open>Construction\<close>

text \<open>
  \<open>newLazyIndexed\<close> stores the entries in the map in the order of the index; the list of
  names, which no property below depends on, is left out.
\<close>

definition newLazyIndexed :: "readSeeker option \<Rightarrow> indexEntry list \<Rightarrow> opts \<Rightarrow> indexedFasta" where
  "newLazyIndexed fasta index parsedOpts =
     \<lparr>seqs = foldl (\<lambda>m entry. m(name entry \<mapsto> entry)) Map.empty index,
      opts = parsedOpts,
      reader = fasta,
      bufOff = 0,
      buf = nilSlice,
      resultBuf = nilSlice\<rparr>"

definition NewIndexed :: "readSeeker option \<Rightarrow> string \<Rightarrow> opts \<Rightarrow> failure + indexedFasta" where
  "NewIndexed fasta index os =
     (case parseIndex index of
        Inl p \<Rightarrow> Inl (Panic p)
      | Inr (entries, Some err) \<Rightarrow> Inl (Error err)
      | Inr (entries, None) \<Rightarrow> Inr (newLazyIndexed fasta entries os))"

definition Len :: "indexedFasta \<Rightarrow> string \<Rightarrow> error + uint64" where
  "Len f seqName =
     (case seqs f seqName of
        None \<Rightarrow> Inl (NotFoundError seqName)
      | Some ent \<Rightarrow> Inr (length_e ent))"

subsection \<open>The cached window\<close>

text \<open>
  \<open>resizeBuf\<close>: a new zeroed array when the capacity is too small, the slice \<open>[0:n]\<close>
  of the old array otherwise, which panics when \<open>n\<close> is negative.
\<close>

definition resizeBuf :: "slice \<Rightarrow> int \<Rightarrow> panic + slice" where
  "resizeBuf b n =
     (if int (length (arr b)) < n then Inr \<lparr>arr = replicate (nat n) (CHR 0x00), len = nat n\<rparr>
      else if n < 0 then Inl SliceBoundsOutOfRange
      else Inr (b\<lparr>len := nat n\<rparr>))"

text \<open>
  The slice expression \<open>b[lo:hi]\<close>: the upper bound of a slice of a slice is the capacity.
\<close>

definition subslice :: "slice \<Rightarrow> int \<Rightarrow> int \<Rightarrow> panic + string" where
  "subslice b lo hi =
     (if 0 \<le> lo \<and> lo \<le> hi \<and> hi \<le> int (length (arr b))
      then Inr (take (nat (hi - lo)) (drop (nat lo) (arr b)))
      else Inl SliceBoundsOutOfRange)"

text \<open>
  The body of the \<open>if\<close> of \<open>read\<close>: seek, resize the buffer, read into it, and move
  the window. The buffer is resized and overwritten before the number of bytes is checked.
\<close>

definition refill :: "indexedFasta \<Rightarrow> int \<Rightarrow> int \<Rightarrow> int \<Rightarrow> failure option \<times> indexedFasta" where
  "refill f off n limit =
     (case reader f of
        None \<Rightarrow> (Some (Panic NilDereference), f)
      | Some r \<Rightarrow>
          (case Seek r off of
             (r1, None) \<Rightarrow> (Some (Error SeekError), f\<lparr>reader := Some r1\<rparr>)
           | (r1, Some newOffset) \<Rightarrow>
               if newOffset \<noteq> off then (Some (Error SeekError), f\<lparr>reader := Some r1\<rparr>)
               else
                 (case resizeBuf (buf f) (max 8192 n) of
                    Inl p \<Rightarrow> (Some (Panic p), f\<lparr>reader := Some r1\<rparr>)
                  | Inr b1 \<Rightarrow>
                      (case Read r1 (len b1) of
                         (r2, bs, err) \<Rightarrow>
                           (let b2 = b1\<lparr>arr := bs @ drop (length bs) (arr b1)\<rparr>;
                                bytesRead = int (length bs);
                                f2 = f\<lparr>reader := Some r2, buf := b2\<rparr>
                            in if bytesRead < n
                               then (Some (Error UnexpectedEndOfStreamError), f2)
                               else if err \<noteq> None \<and> err \<noteq> Some EOF
                               then (Some (Error ReadError), f2)
                               else
                                 (let f3 = f2\<lparr>bufOff := off, buf := b2\<lparr>len := nat bytesRead\<rparr>\<rparr>
                                  in if off < bufOff f3 \<or>
                                        limit > wrap64 (bufOff f3 + int (len (buf f3)))
                                     then (Some (Panic (PanicOff off)), f3)
                                     else (None, f3)))))))"

definition window :: "indexedFasta \<Rightarrow> int \<Rightarrow> int \<Rightarrow> failure + string" where
  "window f off limit =
     (case subslice (buf f) (wrap64 (off - bufOff f)) (wrap64 (limit - bufOff f)) of
        Inl p \<Rightarrow> Inl (Panic p)
      | Inr bs \<Rightarrow> Inr bs)"

definition read :: "indexedFasta \<Rightarrow> int \<Rightarrow> int \<Rightarrow> (failure + string) \<times> indexedFasta" where
  "read f off n =
     (let limit = wrap64 (off + n) in
      if off < bufOff f \<or> limit > wrap64 (bufOff f + int (len (buf f)))
      then
        (case refill f off n limit of
           (Some e, f1) \<Rightarrow> (Inl e, f1)
         | (None, f1) \<Rightarrow> (window f1 off limit, f1))
      else (window f off limit, f))"

subsection \<open>From a range of bases to a range of bytes\<close>

text \<open>The local variables of \<open>Get\<close>, in \<open>uint64\<close> arithmetic as the source computes them.\<close>

definition charsPerNewline :: "indexEntry \<Rightarrow> uint64" where
  "charsPerNewline ent = lineWidth ent - lineBase ent"

definition physOffset :: "indexEntry \<Rightarrow> uint64 \<Rightarrow> uint64" where
  "physOffset ent start =
     offset ent + start + charsPerNewline ent * (start div lineBase ent)"

definition firstLineBases :: "indexEntry \<Rightarrow> uint64 \<Rightarrow> uint64" where
  "firstLineBases ent start = lineBase ent - (start mod lineBase ent)"

definition newlinesToRead :: "indexEntry \<Rightarrow> uint64 \<Rightarrow> uint64 \<Rightarrow> uint64" where
  "newlinesToRead ent start stop =
     (if stop - start > firstLineBases ent start
      then 1 + (stop - start - firstLineBases ent start) div lineBase ent
      else 0)"

definition capacity :: "indexEntry \<Rightarrow> uint64 \<Rightarrow> uint64 \<Rightarrow> uint64" where
  "capacity ent start stop =
     stop - start + newlinesToRead ent start stop * charsPerNewline ent"

subsection \<open>Extraction\<close>

text \<open>
  The loop over the bytes read: a byte is stored when the position in the line is below
  \<open>lineBase\<close>; storing past the end of \<open>resultBuf\<close> panics.
\<close>

fun copyLoop :: "uint64 \<Rightarrow> uint64 \<Rightarrow> string \<Rightarrow> uint64 \<Rightarrow> nat \<Rightarrow> slice \<Rightarrow> panic option \<times> slice" where
  "copyLoop lb lw [] linePos resultPos rb = (None, rb)"
| "copyLoop lb lw (b # buffer) linePos resultPos rb =
     (if linePos < lb
      then
        (if resultPos < len rb
         then copyLoop lb lw buffer (if linePos + 1 = lw then 0 else linePos + 1)
                (resultPos + 1) (rb\<lparr>arr := (arr rb)[resultPos := b]\<rparr>)
         else (Some IndexOutOfRange, rb))
      else copyLoop lb lw buffer (if linePos + 1 = lw then 0 else linePos + 1) resultPos rb)"

text \<open>
  A function that works in place is given the bytes of the slice and leaves their new values
  there; it cannot change the length of the caller's slice.
\<close>

definition inPlace :: "(string \<Rightarrow> string) \<Rightarrow> slice \<Rightarrow> slice" where
  "inPlace g b =
     b\<lparr>arr := take (len b) (g (bytesOf b) @ drop (length (g (bytesOf b))) (bytesOf b))
               @ drop (len b) (arr b)\<rparr>"

definition encodeInplace :: "biosimd \<Rightarrow> opts \<Rightarrow> slice \<Rightarrow> slice" where
  "encodeInplace bs os b =
     (case Enc os of
        CleanASCII \<Rightarrow> inPlace (CleanASCIISeqInplace bs) b
      | Seq8 \<Rightarrow> inPlace (ASCIIToSeq8Inplace bs) b
      | OtherEncoding \<Rightarrow> b)"

text \<open>
  \<open>Get\<close> returns its result together with the engine as the call leaves it. The division
  by \<open>lineBase\<close> is the first step after the checks, the one by \<open>lineWidth\<close> follows the
  read. The lock is not modelled: calls are taken one at a time.
\<close>

definition Get :: "biosimd \<Rightarrow> indexedFasta \<Rightarrow> string \<Rightarrow> uint64 \<Rightarrow> uint64 \<Rightarrow> (failure + string) \<times> indexedFasta" where
  "Get bs f seqName start stop =
     (if stop \<le> start then (Inl (Error InvalidRangeError), f)
      else
        (case seqs f seqName of
           None \<Rightarrow> (Inl (Error (NotFoundError seqName)), f)
         | Some ent \<Rightarrow>
             if stop > length_e ent
             then (Inl (Error (OutOfBoundsError seqName (length_e ent))), f)
             else if lineBase ent = 0 then (Inl (Panic DivideByZero), f)
             else
               (case read f (sint (physOffset ent start)) (sint (capacity ent start stop)) of
                  (Inl e, f1) \<Rightarrow> (Inl e, f1)
                | (Inr buffer, f1) \<Rightarrow>
                    (case resizeBuf (resultBuf f1) (sint (stop - start)) of
                       Inl p \<Rightarrow> (Inl (Panic p), f1)
                     | Inr rb \<Rightarrow>
                         if lineWidth ent = 0
                         then (Inl (Panic DivideByZero), f1\<lparr>resultBuf := rb\<rparr>)
                         else
                           (case copyLoop (lineBase ent) (lineWidth ent) buffer
                                   ((physOffset ent start - offset ent) mod lineWidth ent) 0 rb of
                              (Some p, rb1) \<Rightarrow> (Inl (Panic p), f1\<lparr>resultBuf := rb1\<rparr>)
                            | (None, rb1) \<Rightarrow>
                                (let rb2 = encodeInplace bs (opts f1) rb1
                                 in (Inr (bytesOf rb2), f1\<lparr>resultBuf := rb2\<rparr>)))))))"

subsection \<open>Notions for the properties\<close>

text \<open>
  The layout an index entry describes, in natural numbers: base \<open>i\<close> of a sequence lies
  \<open>basePos L W i\<close> bytes after the first one, when a line holds \<open>L\<close> bases in \<open>W\<close> bytes.
\<close>

definition basePos :: "nat \<Rightarrow> nat \<Rightarrow> nat \<Rightarrow> nat" where
  "basePos L W i = W * (i div L) + i mod L"

text \<open>The number of bytes \<open>Get\<close> reads for the bases from \<open>s\<close> to \<open>e\<close>, when nothing wraps.\<close>

definition spanN :: "nat \<Rightarrow> nat \<Rightarrow> nat \<Rightarrow> nat \<Rightarrow> nat" where
  "spanN L W s e =
     (e - s) + (if e - s > L - s mod L then 1 + (e - s - (L - s mod L)) div L else 0) * (W - L)"

text \<open>The bytes the loop of \<open>Get\<close> stores, in the order it stores them.\<close>

fun dataBytes :: "uint64 \<Rightarrow> uint64 \<Rightarrow> uint64 \<Rightarrow> string \<Rightarrow> string" where
  "dataBytes lb lw linePos [] = []"
| "dataBytes lb lw linePos (b # buffer) =
     (if linePos < lb
      then b # dataBytes lb lw (if linePos + 1 = lw then 0 else linePos + 1) buffer
      else dataBytes lb lw (if linePos + 1 = lw then 0 else linePos + 1) buffer)"

text \<open>
  The bytes a sequence of \<open>n\<close> bases takes in the data when every line, the last one
  too, ends with its line break.
\<close>

definition extent :: "nat \<Rightarrow> nat \<Rightarrow> nat \<Rightarrow> nat" where
  "extent L W n = n + (W - L) * ((n + L - 1) div L)"

text \<open>
  The engine reads the source \<open>data\<close> and its window is a copy of the bytes of \<open>data\<close> at
  \<open>bufOff\<close>. A new engine is in this state, and every call of \<open>Get\<close> that returns a
  string keeps it. The length of a Go byte source is below \<open>2^63\<close>.
\<close>

definition cacheOK :: "indexedFasta \<Rightarrow> string \<Rightarrow> bool" where
  "cacheOK f data =
     (case reader f of
        None \<Rightarrow> False
      | Some r \<Rightarrow>
          content r = data \<and> length data < 2 ^ 63 \<and> 0 \<le> bufOff f \<and>
          len (buf f) \<le> length (arr (buf f)) \<and>
          nat (bufOff f) + len (buf f) \<le> length data \<and>
          bytesOf (buf f) = take (len (buf f)) (drop (nat (bufOff f)) data) \<and>
          len (resultBuf f) \<le> length (arr (resultBuf f)))"

text \<open>What the selected function of \<open>biosimd\<close> leaves in a slice that held \<open>v\<close>.\<close>

definition transformed :: "biosimd \<Rightarrow> opts \<Rightarrow> string \<Rightarrow> string" where
  "transformed bs os v = bytesOf (encodeInplace bs os \<lparr>arr = v, len = length v\<rparr>)"

text \<open>
  The positions of the bytes \<open>Get\<close> reads for a request at which the position in the line
  is below \<open>lineBase\<close>: the places of bases, not of line breaks.
\<close>

definition dataPositions :: "indexEntry \<Rightarrow> uint64 \<Rightarrow> uint64 \<Rightarrow> nat list" where
  "dataPositions ent start stop =
     filter (\<lambda>q. (q - unat (offset ent)) mod unat (lineWidth ent) < unat (lineBase ent))
       [unat (physOffset ent start) ..<
        unat (physOffset ent start) + unat (capacity ent start stop)]"

text \<open>
  The example of the specification: the index line \<open>seq1 10 0 4 5\<close> (tab-separated) over
  the data \<open>ACGT\<close>, \<open>ACGT\<close>, \<open>AC\<close>, each line ended by a newline; the entry the line
  stands for; and an engine over both that leaves the bytes as they are read.
\<close>

definition seq1Index :: string where
  "seq1Index = ''seq1'' @ [TAB] @ ''10'' @ [TAB] @ ''0'' @ [TAB] @ ''4'' @ [TAB] @ ''5''"

definition seq1Data :: string where
  "seq1Data = ''ACGT'' @ [LF] @ ''ACGT'' @ [LF] @ ''AC'' @ [LF]"

definition seq1Entry :: indexEntry where
  "seq1Entry = \<lparr>name = ''seq1'', length_e = 10, offset = 0, lineBase = 4, lineWidth = 5\<rparr>"

definition seq1Engine :: indexedFasta where
  "seq1Engine =
     newLazyIndexed (Some \<lparr>content = seq1Data, pos = 0\<rparr>) [seq1Entry] \<lparr>Enc = OtherEncoding\<rparr>"

text \<open>A stand-in for \<open>biosimd\<close> in the examples, where neither function is called.\<close>

definition noBiosimd :: biosimd where
  "noBiosimd = \<lparr>CleanASCIISeqInplace = (\<lambda>b. b), ASCIIToSeq8Inplace = (\<lambda>b. b)\<rparr>"

text \<open>
  A sequence whose length is a multiple of \<open>lineBase\<close>: eight bases in two full lines, and
  an engine over it.
\<close>

definition seq2Data :: string where
  "seq2Data = ''ACGT'' @ [LF] @ ''TTGA'' @ [LF]"

definition seq2Entry :: indexEntry where
  "seq2Entry = \<lparr>name = ''seq2'', length_e = 8, offset = 0, lineBase = 4, lineWidth = 5\<rparr>"

definition seq2Engine :: indexedFasta where
  "seq2Engine =
     newLazyIndexed (Some \<lparr>content = seq2Data, pos = 0\<rparr>) [seq2Entry] \<lparr>Enc = OtherEncoding\<rparr>"

text \<open>
  An index line written out from its five fields, and the strings \<open>ParseUint\<close> accepts.
\<close>

definition indexLine :: "string \<Rightarrow> string \<Rightarrow> string \<Rightarrow> string \<Rightarrow> string \<Rightarrow> string" where
  "indexLine nm d1 d2 d3 d4 = nm @ TAB # d1 @ TAB # d2 @ TAB # d3 @ TAB # d4"

definition number :: "string \<Rightarrow> bool" where
  "number d = (d \<noteq> [] \<and> list_all isDigit d \<and> decimal d < 2 ^ 64)"

text \<open>An entry whose lines are narrower than their bases: five bases in four bytes.\<close>

definition narrowEntry :: indexEntry where
  "narrowEntry = \<lparr>name = ''seq1'', length_e = 10, offset = 0, lineBase = 5, lineWidth = 4\<rparr>"

text \<open>The engines that calls of \<open>Get\<close>, one after the other, lead to from the engine \<open>f0\<close>.\<close>

inductive reached :: "biosimd \<Rightarrow> indexedFasta \<Rightarrow> indexedFasta \<Rightarrow> bool" for bs f0 where
  reached_new: "reached bs f0 f0"
| reached_Get: "reached bs f0 f \<Longrightarrow> reached bs f0 (snd (Get bs f seqName start stop))"

section \<open>Properties\<close>

subsection \<open>Positions of the bases in the lines\<close>

lemma basePos_mod: "0 < L \<Longrightarrow> L \<le> W \<Longrightarrow> basePos L W i mod W = i mod L"
  unfolding basePos_def
  by (metis mod_less mod_less_divisor mod_mult_self4 order_less_le_trans)

lemma basePos_Suc:
  "0 < L \<Longrightarrow> L \<le> W \<Longrightarrow> basePos L W (Suc i) =
     (if Suc (i mod L) = L then basePos L W i + 1 + (W - L) else basePos L W i + 1)"
  unfolding basePos_def
  by (auto simp: mod_Suc div_Suc algebra_simps)

lemma basePos_gap:
  assumes "0 < L" "L \<le> W" "basePos L W i < q" "q < basePos L W (Suc i)"
  shows "\<not> q mod W < L"
proof -
  have S: "Suc (i mod L) = L"
    using assms basePos_Suc [of L W i] by (auto split: if_splits)
  then have e: "basePos L W (Suc i) = basePos L W i + 1 + (W - L)"
    using assms basePos_Suc [of L W i] by simp
  define k where "k = q - (basePos L W i + 1)"
  have k: "q = basePos L W i + 1 + k" "k < W - L"
    using assms(3,4) e unfolding k_def by linarith+
  have "q = W * (i div L) + (L + k)"
    using k S unfolding basePos_def by simp
  moreover have "L + k < W" using k by simp
  ultimately have "q mod W = L + k" by simp
  then show ?thesis by simp
qed

lemma basePos_mono: "0 < L \<Longrightarrow> L \<le> W \<Longrightarrow> basePos L W i < basePos L W (Suc i)"
  using basePos_Suc [of L W i] by (simp split: if_splits)

lemma filter_step:
  assumes "0 < L" "L \<le> W"
  shows "filter (\<lambda>q. q mod W < L) [basePos L W i ..< basePos L W (Suc i)] = [basePos L W i]"
proof -
  have "[basePos L W i ..< basePos L W (Suc i)] = basePos L W i # [Suc (basePos L W i) ..< basePos L W (Suc i)]"
    using basePos_mono [OF assms, of i] by (simp add: upt_conv_Cons)
  moreover have "filter (\<lambda>q. q mod W < L) [Suc (basePos L W i) ..< basePos L W (Suc i)] = []"
    using basePos_gap [OF assms, of i] by (auto simp: filter_empty_conv)
  moreover have "basePos L W i mod W < L"
    using assms by (simp add: basePos_mod)
  ultimately show ?thesis by simp
qed

lemma basePos_le:
  assumes "0 < L" "L \<le> W" "s \<le> e"
  shows "basePos L W s \<le> basePos L W e"
proof (rule lift_Suc_mono_le [OF _ assms(3)])
  fix n show "basePos L W n \<le> basePos L W (Suc n)"
    using basePos_mono [OF assms(1,2), of n] by simp
qed

lemma filter_span:
  assumes L: "0 < L" "L \<le> W" and se: "s \<le> e"
  shows "filter (\<lambda>q. q mod W < L) [basePos L W s ..< basePos L W e] = map (basePos L W) [s ..< e]"
  using se
proof (induction e)
  case 0
  then show ?case by simp
next
  case (Suc e)
  show ?case
  proof (cases "s = Suc e")
    case True
    then show ?thesis by simp
  next
    case False
    then have le: "s \<le> e" using Suc.prems by simp
    define d where "d = basePos L W (Suc e) - basePos L W e"
    have d: "basePos L W (Suc e) = basePos L W e + d"
      using basePos_mono [OF L, of e] unfolding d_def by linarith
    have "[basePos L W s ..< basePos L W e + d] =
          [basePos L W s ..< basePos L W e] @ [basePos L W e ..< basePos L W e + d]"
      by (rule upt_add_eq_append [OF basePos_le [OF L le]])
    then have split: "[basePos L W s ..< basePos L W (Suc e)] =
          [basePos L W s ..< basePos L W e] @ [basePos L W e ..< basePos L W (Suc e)]"
      by (simp only: d)
    have "filter (\<lambda>q. q mod W < L) [basePos L W s ..< basePos L W (Suc e)] =
          map (basePos L W) [s ..< e] @ [basePos L W e]"
      by (simp only: split filter_append Suc.IH [OF le] filter_step [OF L])
    also have "\<dots> = map (basePos L W) [s ..< Suc e]"
      using le by simp
    finally show ?thesis .
  qed
qed

lemma divmod_decomp: "t < (L::nat) \<Longrightarrow> (L * k + t) div L = k \<and> (L * k + t) mod L = t"
  by simp

lemma span_long:
  assumes L: "0 < L" "L \<le> W" and se: "s < e" and long: "e - s > L - s mod L"
  shows "basePos L W s + spanN L W s e = basePos L W e"
proof -
  obtain c where W: "W = L + c" using L by (metis le_Suc_ex)
  define a where "a = s div L"
  define r where "r = s mod L"
  have s: "s = L * a + r" and r: "r < L" using L by (simp_all add: a_def r_def)
  define m where "m = e - s - (L - r)"
  define b where "b = m div L"
  define t where "t = m mod L"
  have m: "m = L * b + t" and t: "t < L" using L by (simp_all add: b_def t_def)
  have e: "e = L * (a + 1 + b) + t"
    using long se s r m unfolding m_def r_def [symmetric] by (simp add: algebra_simps)
  have ediv: "e div L = a + 1 + b" and emod: "e mod L = t"
    using divmod_decomp [OF t, of "a + 1 + b"] e by simp_all
  have n: "e - s = (L - r) + m" using long unfolding m_def r_def by simp
  have "spanN L W s e = (L - r) + m + (1 + b) * c"
    unfolding spanN_def using long n W by (simp add: r_def [symmetric] m_def [symmetric] b_def)
  moreover have "basePos L W s = W * a + r" by (simp add: basePos_def a_def r_def)
  moreover have "basePos L W e = W * (a + 1 + b) + t" by (simp add: basePos_def ediv emod)
  ultimately show ?thesis using r m W by (simp add: algebra_simps)
qed

lemma span_short:
  assumes L: "0 < L" "L \<le> W" and se: "s \<le> e'" and short: "\<not> Suc e' - s > L - s mod L"
  shows "basePos L W s + spanN L W s (Suc e') = Suc (basePos L W e')"
proof -
  define a where "a = s div L"
  define r where "r = s mod L"
  have s: "s = L * a + r" and r: "r < L" using L by (simp_all add: a_def r_def)
  define k where "k = e' - s"
  have k: "r + k < L" using short se r unfolding k_def r_def by linarith
  have e: "e' = L * a + (r + k)" using se s unfolding k_def by linarith
  have ediv: "e' div L = a" and emod: "e' mod L = r + k"
    using divmod_decomp [OF k, of a] e by simp_all
  have "spanN L W s (Suc e') = Suc k" unfolding spanN_def using short se by (simp add: k_def)
  moreover have "basePos L W s = W * a + r" by (simp add: basePos_def a_def r_def)
  moreover have "basePos L W e' = W * a + (r + k)" by (simp add: basePos_def ediv emod)
  ultimately show ?thesis by simp
qed

lemma span_filter:
  assumes L: "0 < L" "L \<le> W" and se: "s < e"
  shows "filter (\<lambda>q. q mod W < L) [basePos L W s ..< basePos L W s + spanN L W s e]
         = map (basePos L W) [s ..< e]"
proof (cases "e - s > L - s mod L")
  case True
  then show ?thesis using span_long [OF L se True] filter_span [OF L, of s e] se by simp
next
  case False
  obtain e' where e': "e = Suc e'" "s \<le> e'" using se by (cases e) auto
  have "basePos L W s \<le> basePos L W e'"
    by (rule basePos_le [OF L e'(2)])
  then have "[basePos L W s ..< Suc (basePos L W e')] = [basePos L W s ..< basePos L W e'] @ [basePos L W e']"
    by simp
  moreover have "basePos L W e' mod W < L" using L by (simp add: basePos_mod)
  ultimately show ?thesis
    using span_short [OF L e'(2)] False filter_span [OF L e'(2)] e' by simp
qed

lemma span_bound:
  assumes L: "0 < L" "L \<le> W" and se: "s < e"
  shows "basePos L W s + spanN L W s e \<le> basePos L W e"
proof (cases "e - s > L - s mod L")
  case True
  then show ?thesis using span_long [OF L se True] by simp
next
  case False
  obtain e' where e': "e = Suc e'" "s \<le> e'" using se by (cases e) auto
  show ?thesis using span_short [OF L e'(2)] False basePos_mono [OF L, of e'] e' by simp
qed

subsection \<open>The arithmetic of Get on machine words\<close>

lemma basePos_alt: "L \<le> W \<Longrightarrow> basePos L W s = s + (W - L) * (s div L)"
proof -
  assume "L \<le> W"
  then obtain c where W: "W = L + c" using le_Suc_ex by blast
  have "s = L * (s div L) + s mod L" by simp
  then have "W * (s div L) + s mod L = s + c * (s div L)"
    unfolding W by (metis add.assoc add.commute distrib_right mult.commute)
  then show ?thesis unfolding basePos_def W by simp
qed

lemma unat_add_nowrap: "unat a + unat b < 2 ^ 64 \<Longrightarrow> unat (a + b :: 64 word) = unat a + unat b"
  using unat_add_lem [of a b] by simp

lemma unat_mult_nowrap: "unat a * unat b < 2 ^ 64 \<Longrightarrow> unat (a * b :: 64 word) = unat a * unat b"
  using unat_mult_lem [of a b] by simp

lemma unat_sub_le: "b \<le> a \<Longrightarrow> unat (a - b :: 64 word) = unat a - unat b"
  by (simp add: unat_sub)

lemma physOffset_unat:
  assumes lb: "lineBase ent \<noteq> 0" and lw: "lineBase ent \<le> lineWidth ent"
    and nowrap: "unat (offset ent) + basePos (unat (lineBase ent)) (unat (lineWidth ent)) (unat start) < 2 ^ 64"
  shows "unat (physOffset ent start) =
         unat (offset ent) + basePos (unat (lineBase ent)) (unat (lineWidth ent)) (unat start)"
proof -
  define L where "L = unat (lineBase ent)"
  define W where "W = unat (lineWidth ent)"
  define s where "s = unat start"
  have LW: "L \<le> W" using lw by (simp add: L_def W_def word_le_nat_alt)
  have bp: "basePos L W s = s + (W - L) * (s div L)" by (rule basePos_alt [OF LW])
  have nw: "unat (offset ent) + (s + (W - L) * (s div L)) < 2 ^ 64"
    using nowrap bp by (simp add: L_def W_def s_def)
  have c: "unat (charsPerNewline ent) = W - L"
    unfolding charsPerNewline_def using lw by (simp add: unat_sub_le L_def W_def)
  have d: "unat (start div lineBase ent) = s div L"
    by (simp add: unat_div L_def s_def)
  have m: "unat (charsPerNewline ent * (start div lineBase ent)) = (W - L) * (s div L)"
    using nw unat_mult_nowrap [of "charsPerNewline ent" "start div lineBase ent"] by (simp add: c d)
  have a1: "unat (offset ent + start) = unat (offset ent) + s"
    using nw unat_add_nowrap [of "offset ent" start] by (simp add: s_def)
  have "unat (offset ent + start + charsPerNewline ent * (start div lineBase ent))
        = unat (offset ent) + s + (W - L) * (s div L)"
    using nw unat_add_nowrap [of "offset ent + start" "charsPerNewline ent * (start div lineBase ent)"]
    by (simp add: a1 m)
  then show ?thesis
    unfolding physOffset_def using bp by (simp add: L_def W_def s_def)
qed

lemma linePos_unat:
  assumes lb: "lineBase ent \<noteq> 0" and lw: "lineBase ent \<le> lineWidth ent"
    and nowrap: "unat (offset ent) + basePos (unat (lineBase ent)) (unat (lineWidth ent)) (unat start) < 2 ^ 64"
  shows "unat ((physOffset ent start - offset ent) mod lineWidth ent) = unat start mod unat (lineBase ent)"
proof -
  have L: "0 < unat (lineBase ent)" using lb by (simp add: unat_gt_0)
  have LW: "unat (lineBase ent) \<le> unat (lineWidth ent)" using lw by (simp add: word_le_nat_alt)
  have po: "unat (physOffset ent start) =
         unat (offset ent) + basePos (unat (lineBase ent)) (unat (lineWidth ent)) (unat start)"
    by (rule physOffset_unat [OF assms])
  then have "offset ent \<le> physOffset ent start"
    by (simp add: word_le_nat_alt)
  then have "unat (physOffset ent start - offset ent) = basePos (unat (lineBase ent)) (unat (lineWidth ent)) (unat start)"
    using po by (simp add: unat_sub_le)
  then show ?thesis
    using basePos_mod [OF L LW, of "unat start"] by (simp add: unat_mod)
qed

lemma capacity_unat:
  assumes lb: "lineBase ent \<noteq> 0" and lw: "lineBase ent \<le> lineWidth ent"
    and se: "start < stop"
    and nowrap: "basePos (unat (lineBase ent)) (unat (lineWidth ent)) (unat stop) < 2 ^ 64"
  shows "unat (capacity ent start stop) =
         spanN (unat (lineBase ent)) (unat (lineWidth ent)) (unat start) (unat stop)"
proof -
  define L where "L = unat (lineBase ent)"
  define W where "W = unat (lineWidth ent)"
  define s where "s = unat start"
  define e where "e = unat stop"
  have L: "0 < L" using lb by (simp add: L_def unat_gt_0)
  have LW: "L \<le> W" using lw by (simp add: L_def W_def word_le_nat_alt)
  have se': "s < e" using se by (simp add: s_def e_def word_less_nat_alt)
  have bound: "basePos L W s + spanN L W s e < 2 ^ 64"
    using span_bound [OF L LW se'] nowrap by (simp add: L_def W_def e_def)
  have c: "unat (charsPerNewline ent) = W - L"
    unfolding charsPerNewline_def using lw by (simp add: unat_sub_le L_def W_def)
  have n: "unat (stop - start) = e - s"
    using se by (simp add: unat_sub_le s_def e_def)
  have sm: "unat (start mod lineBase ent) = s mod L" by (simp add: unat_mod s_def L_def)
  have "s mod L < L" using L by simp
  then have "start mod lineBase ent \<le> lineBase ent"
    using sm by (simp add: word_le_nat_alt L_def)
  then have flb: "unat (firstLineBases ent start) = L - s mod L"
    unfolding firstLineBases_def using sm by (simp add: unat_sub_le L_def)
  show ?thesis
  proof (cases "e - s > L - s mod L")
    case True
    then have gt: "stop - start > firstLineBases ent start"
      using n flb by (simp add: word_less_nat_alt)
    then have le: "firstLineBases ent start \<le> stop - start" by simp
    have q: "unat ((stop - start - firstLineBases ent start) div lineBase ent) = (e - s - (L - s mod L)) div L"
      using le n flb by (simp add: unat_div unat_sub_le L_def)
    have sp: "spanN L W s e = (e - s) + (1 + (e - s - (L - s mod L)) div L) * (W - L)"
      unfolding spanN_def using True by simp
    have small: "1 + (e - s - (L - s mod L)) div L < 2 ^ 64"
    proof -
      have "(e - s - (L - s mod L)) div L \<le> e - s - (L - s mod L)" by simp
      moreover have "e - s - (L - s mod L) < e" using True se' \<open>s mod L < L\<close> by linarith
      moreover have "e < 2 ^ 64" unfolding e_def using unsigned_less [of stop, where 'a = nat] by simp
      ultimately show ?thesis by linarith
    qed
    have nl: "unat (newlinesToRead ent start stop) = 1 + (e - s - (L - s mod L)) div L"
      unfolding newlinesToRead_def using gt small
        unat_add_nowrap [of 1 "(stop - start - firstLineBases ent start) div lineBase ent"]
      by (simp add: q)
    have m: "unat (newlinesToRead ent start stop * charsPerNewline ent) = (1 + (e - s - (L - s mod L)) div L) * (W - L)"
      using bound sp unat_mult_nowrap [of "newlinesToRead ent start stop" "charsPerNewline ent"]
      by (simp add: nl c)
    have "unat (stop - start + newlinesToRead ent start stop * charsPerNewline ent) = spanN L W s e"
      using bound sp unat_add_nowrap [of "stop - start" "newlinesToRead ent start stop * charsPerNewline ent"]
      by (simp add: m n)
    then show ?thesis unfolding capacity_def by (simp add: L_def W_def s_def e_def)
  next
    case False
    then have ngt: "\<not> stop - start > firstLineBases ent start"
      using n flb by (simp add: word_less_nat_alt)
    have sp: "spanN L W s e = e - s" unfolding spanN_def using False by simp
    have "newlinesToRead ent start stop = 0" unfolding newlinesToRead_def using ngt by simp
    then show ?thesis unfolding capacity_def using sp n by (simp add: L_def W_def s_def e_def)
  qed
qed

subsection \<open>The loop over the bytes read\<close>

lemma copyLoop_dataBytes:
  "rp + length (dataBytes lb lw lp buffer) \<le> len rb \<Longrightarrow> len rb \<le> length (arr rb) \<Longrightarrow>
   copyLoop lb lw buffer lp rp rb =
     (None, rb\<lparr>arr := take rp (arr rb) @ dataBytes lb lw lp buffer
                        @ drop (rp + length (dataBytes lb lw lp buffer)) (arr rb)\<rparr>)"
proof (induction buffer arbitrary: lp rp rb)
  case Nil
  then show ?case by simp
next
  case (Cons b buffer)
  define lp' where "lp' = (if lp + 1 = lw then 0 else lp + 1)"
  show ?case
  proof (cases "lp < lb")
    case True
    define rb' where "rb' = rb\<lparr>arr := (arr rb)[rp := b]\<rparr>"
    have len: "Suc rp + length (dataBytes lb lw lp' buffer) \<le> len rb"
      using Cons.prems(1) True by (simp add: lp'_def)
    then have rp: "rp < len rb" "rp < length (arr rb)" using Cons.prems(2) by simp_all
    have IH: "copyLoop lb lw buffer lp' (Suc rp) rb' =
       (None, rb'\<lparr>arr := take (Suc rp) (arr rb') @ dataBytes lb lw lp' buffer
                        @ drop (Suc rp + length (dataBytes lb lw lp' buffer)) (arr rb')\<rparr>)"
      using Cons.IH [of "Suc rp" lp' rb'] len Cons.prems(2) by (simp add: rb'_def)
    have t: "take (Suc rp) (arr rb') = take rp (arr rb) @ [b]"
      using rp(2) by (simp add: rb'_def take_Suc_conv_app_nth)
    have d: "drop (Suc rp + length (dataBytes lb lw lp' buffer)) (arr rb')
             = drop (Suc rp + length (dataBytes lb lw lp' buffer)) (arr rb)"
      by (simp add: rb'_def)
    show ?thesis
      using True rp(1) IH t d by (simp add: lp'_def [symmetric] rb'_def [symmetric]) (simp add: rb'_def)
  next
    case False
    then show ?thesis
      using Cons.IH [of rp lp' rb] Cons.prems by (simp add: lp'_def)
  qed
qed

lemma linePos_next:
  assumes "lp < (lw :: uint64)"
  shows "unat (if lp + 1 = lw then 0 else lp + 1) = Suc (unat lp) mod unat lw"
    and "(if lp + 1 = lw then 0 else lp + 1) < lw"
proof -
  have lt: "unat lp < unat lw" using assms by (simp add: word_less_nat_alt)
  have "unat lw < 2 ^ 64" using unsigned_less [of lw, where 'a = nat] by simp
  then have s: "unat (lp + 1) = Suc (unat lp)"
    using lt unat_add_nowrap [of lp 1] by simp
  have iff: "lp + 1 = lw \<longleftrightarrow> Suc (unat lp) = unat lw"
    using s by (simp add: word_unat_eq_iff)
  show "unat (if lp + 1 = lw then 0 else lp + 1) = Suc (unat lp) mod unat lw"
    using iff s lt by (cases "lp + 1 = lw") simp_all
  have "0 < unat lw" using lt by simp
  then have "0 < lw" by (simp add: word_less_nat_alt)
  then show "(if lp + 1 = lw then 0 else lp + 1) < lw"
    using iff s lt by (cases "lp + 1 = lw") (simp_all add: word_less_nat_alt)
qed

lemma filter_upt_Suc:
  "filter P [0..<Suc n] = (if P 0 then [0] else []) @ map Suc (filter (\<lambda>j. P (Suc j)) [0..<n])"
proof -
  have "[0..<Suc n] = 0 # map Suc [0..<n]"
    by (simp add: upt_conv_Cons map_Suc_upt del: upt_Suc)
  then show ?thesis by (simp add: filter_map comp_def del: upt_Suc)
qed

lemma dataBytes_filter:
  "lp < lw \<Longrightarrow>
   dataBytes lb lw lp bs =
     map (\<lambda>j. bs ! j) (filter (\<lambda>j. (unat lp + j) mod unat lw < unat lb) [0..<length bs])"
proof (induction bs arbitrary: lp)
  case Nil
  then show ?case by simp
next
  case (Cons b bs)
  define lp' where "lp' = (if lp + 1 = lw then 0 else lp + 1)"
  have lp': "unat lp' = Suc (unat lp) mod unat lw" "lp' < lw"
    using linePos_next [OF Cons.prems] by (simp_all add: lp'_def)
  have lt: "unat lp < unat lw" using Cons.prems by (simp add: word_less_nat_alt)
  have shift: "\<And>j. (unat lp' + j) mod unat lw = (unat lp + Suc j) mod unat lw"
    unfolding lp'(1) by (simp add: mod_add_left_eq del: mod_Suc_eq)
  have IH: "dataBytes lb lw lp' bs =
     map (\<lambda>j. bs ! j) (filter (\<lambda>j. (unat lp + Suc j) mod unat lw < unat lb) [0..<length bs])"
    using Cons.IH [OF lp'(2)] by (simp only: shift)
  have here: "lp < lb \<longleftrightarrow> (unat lp + 0) mod unat lw < unat lb"
    using lt by (simp add: word_less_nat_alt)
  have "dataBytes lb lw lp (b # bs) = (if lp < lb then [b] else []) @ dataBytes lb lw lp' bs"
    by (simp add: lp'_def)
  also have "\<dots> = map (\<lambda>j. (b # bs) ! j)
       (filter (\<lambda>j. (unat lp + j) mod unat lw < unat lb) [0..<Suc (length bs)])"
    unfolding filter_upt_Suc IH using here by (simp add: comp_def del: upt_Suc)
  finally show ?case by simp
qed

lemma filter_shift:
  "filter (\<lambda>j. P (a + j)) [0..<n] = map (\<lambda>q. q - a) (filter P [a..<a + n])"
proof -
  have "[a..<a + n] = map (\<lambda>j. j + a) [0..<n]"
    using map_add_upt [of a n] by (simp add: add.commute)
  then have "filter P [a..<a + n] = map (\<lambda>j. j + a) (filter (\<lambda>j. P (j + a)) [0..<n])"
    by (simp add: filter_map comp_def)
  then show ?thesis by (simp add: comp_def add.commute)
qed

lemma span_member:
  assumes L: "0 < L" "L \<le> W" and i: "s \<le> i" "i < e"
  shows "basePos L W s \<le> basePos L W i \<and> basePos L W i < basePos L W s + spanN L W s e"
proof -
  have se: "s < e" using i by simp
  have "basePos L W i \<in> set (map (basePos L W) [s..<e])" using i by simp
  then have "basePos L W i \<in> set (filter (\<lambda>q. q mod W < L) [basePos L W s ..< basePos L W s + spanN L W s e])"
    by (simp only: span_filter [OF L se])
  then show ?thesis by simp
qed

lemma dataBytes_span:
  assumes L: "0 < unat lb" "unat lb \<le> unat lw" and se: "s < e"
    and lp: "unat lp = s mod unat lb"
    and fit: "p + basePos (unat lb) (unat lw) s + spanN (unat lb) (unat lw) s e \<le> length data"
  shows "dataBytes lb lw lp (take (spanN (unat lb) (unat lw) s e) (drop (p + basePos (unat lb) (unat lw) s) data))
         = map (\<lambda>i. data ! (p + basePos (unat lb) (unat lw) i)) [s..<e]"
proof -
  define cap where "cap = spanN (unat lb) (unat lw) s e"
  define a where "a = basePos (unat lb) (unat lw) s"
  define bs where "bs = take cap (drop (p + a) data)"
  have len: "length bs = cap" using fit by (simp add: bs_def cap_def a_def)
  have "unat lp < unat lw" using lp L by (metis mod_less_divisor order_less_le_trans)
  then have lplw: "lp < lw" by (simp add: word_less_nat_alt)
  have lpa: "unat lp = a mod unat lw"
    using basePos_mod [OF L, of s] lp by (simp add: a_def)
  have cyc: "\<And>j. (unat lp + j) mod unat lw = (a + j) mod unat lw"
    unfolding lpa by (simp add: mod_add_left_eq)
  have "dataBytes lb lw lp bs =
        map (\<lambda>j. bs ! j) (filter (\<lambda>j. (a + j) mod unat lw < unat lb) [0..<cap])"
    using dataBytes_filter [OF lplw, of lb bs] by (simp only: cyc len)
  also have "\<dots> = map (\<lambda>j. bs ! j) (map (\<lambda>q. q - a) (filter (\<lambda>q. q mod unat lw < unat lb) [a..<a + cap]))"
    by (simp only: filter_shift [of "\<lambda>q. q mod unat lw < unat lb" a cap])
  also have "\<dots> = map (\<lambda>j. bs ! j) (map (\<lambda>q. q - a) (map (basePos (unat lb) (unat lw)) [s..<e]))"
    using span_filter [OF L se] by (simp only: a_def cap_def)
  also have "\<dots> = map (\<lambda>i. bs ! (basePos (unat lb) (unat lw) i - a)) [s..<e]"
    by (simp add: comp_def)
  also have "\<dots> = map (\<lambda>i. data ! (p + basePos (unat lb) (unat lw) i)) [s..<e]"
  proof (rule map_cong [OF refl])
    fix i assume "i \<in> set [s..<e]"
    then have i: "s \<le> i" "i < e" by simp_all
    have m: "a \<le> basePos (unat lb) (unat lw) i" "basePos (unat lb) (unat lw) i < a + cap"
      using span_member [OF L i] by (simp_all add: a_def cap_def)
    then have "basePos (unat lb) (unat lw) i - a < cap" by linarith
    then have "bs ! (basePos (unat lb) (unat lw) i - a) = data ! (p + a + (basePos (unat lb) (unat lw) i - a))"
      using fit by (simp add: bs_def a_def cap_def)
    then show "bs ! (basePos (unat lb) (unat lw) i - a) = data ! (p + basePos (unat lb) (unat lw) i)"
      using m(1) by simp
  qed
  finally show ?thesis by (simp only: bs_def cap_def a_def)
qed

subsection \<open>Reading through the window\<close>

lemma wrap64_id: "- (2 ^ 63) \<le> x \<Longrightarrow> x < 2 ^ 63 \<Longrightarrow> wrap64 x = x"
  unfolding wrap64_def by (simp add: signed_take_bit_int_eq_self)

lemma transformed_length: "length (transformed bs os v) = length v"
  by (cases "Enc os") (simp_all add: transformed_def encodeInplace_def inPlace_def bytesOf_def)

lemma bytesOf_encodeInplace:
  "len rb \<le> length (arr rb) \<Longrightarrow> bytesOf (encodeInplace bs os rb) = transformed bs os (bytesOf rb)"
  by (cases "Enc os") (simp_all add: transformed_def encodeInplace_def inPlace_def bytesOf_def min_def)

lemma encodeInplace_len:
  "len (encodeInplace bs os rb) = len rb"
  by (cases "Enc os") (simp_all add: encodeInplace_def inPlace_def)

lemma encodeInplace_cap:
  "len rb \<le> length (arr rb) \<Longrightarrow> length (arr (encodeInplace bs os rb)) = length (arr rb)"
  by (cases "Enc os") (simp_all add: encodeInplace_def inPlace_def bytesOf_def min_def)

lemma wrap64_id': "- 9223372036854775808 \<le> x \<Longrightarrow> x < 9223372036854775808 \<Longrightarrow> wrap64 x = x"
  using wrap64_id [of x] by simp

lemma length_int_bound: "length (data :: string) < 2 ^ 63 \<Longrightarrow> int (length data) < 9223372036854775808"
  by simp

lemma read_hit:
  assumes ok: "cacheOK f data" and off: "0 \<le> off" and n: "1 \<le> n"
    and fit: "off + n \<le> int (length data)"
    and hit: "\<not> (off < bufOff f \<or> off + n > bufOff f + int (len (buf f)))"
  shows "read f off n = (Inr (take (nat n) (drop (nat off) data)), f)"
proof -
  obtain r where r: "reader f = Some r" using ok by (cases "reader f") (simp_all add: cacheOK_def)
  have c: "length data < 2 ^ 63" "0 \<le> bufOff f" "len (buf f) \<le> length (arr (buf f))"
    "nat (bufOff f) + len (buf f) \<le> length data"
    "take (len (buf f)) (arr (buf f)) = take (len (buf f)) (drop (nat (bufOff f)) data)"
    using ok r by (simp_all add: cacheOK_def bytesOf_def)
  note lb = length_int_bound [OF c(1)]
  have bo: "bufOff f + int (len (buf f)) \<le> int (length data)" using c(2,4) by linarith
  have w1: "wrap64 (off + n) = off + n" using off n fit lb by (intro wrap64_id') linarith+
  have w2: "wrap64 (bufOff f + int (len (buf f))) = bufOff f + int (len (buf f))"
    using c(2) bo lb by (intro wrap64_id') linarith+
  have w3: "wrap64 (off - bufOff f) = off - bufOff f"
    using off c(2) bo lb fit n by (intro wrap64_id') linarith+
  have w4: "wrap64 (off + n - bufOff f) = off + n - bufOff f"
    using off c(2) bo lb fit n by (intro wrap64_id') linarith+
  define lo where "lo = nat (off - bufOff f)"
  have lo: "off - bufOff f = int lo" "nat off = nat (bufOff f) + lo"
    using hit off c(2) unfolding lo_def by linarith+
  have hi: "lo + nat n \<le> len (buf f)" using hit n lo by linarith
  have "take (nat n) (drop lo (arr (buf f))) = take (nat n) (drop lo (take (len (buf f)) (arr (buf f))))"
    using hi by (simp add: drop_take)
  also have "\<dots> = take (nat n) (drop lo (take (len (buf f)) (drop (nat (bufOff f)) data)))"
    by (simp only: c(5))
  also have "\<dots> = take (nat n) (drop (nat off) data)"
    using hi by (simp add: drop_take lo(2) add.commute)
  finally have bytes: "take (nat n) (drop lo (arr (buf f))) = take (nat n) (drop (nat off) data)" .
  have "subslice (buf f) (int lo) (int lo + n) = Inr (take (nat n) (drop (nat off) data))"
    unfolding subslice_def using n hi c(3) bytes by simp
  moreover have "off + n - bufOff f = int lo + n" using lo(1) by linarith
  ultimately have sub: "subslice (buf f) (off - bufOff f) (off + n - bufOff f)
      = Inr (take (nat n) (drop (nat off) data))"
    by (simp only: lo(1))
  show ?thesis
    unfolding read_def Let_def w1 w2 window_def w3 w4 using hit sub by simp
qed

lemma resizeBuf_pos:
  assumes "0 \<le> n"
  shows "\<exists>b. resizeBuf b0 n = Inr b \<and> len b = nat n \<and> nat n \<le> length (arr b)"
  using assms unfolding resizeBuf_def by (cases "int (length (arr b0)) < n") auto

lemma read_miss:
  assumes ok: "cacheOK f data" and off: "0 \<le> off" and n: "1 \<le> n"
    and fit: "off + n \<le> int (length data)"
    and miss: "off < bufOff f \<or> off + n > bufOff f + int (len (buf f))"
  shows "\<exists>r' b'. read f off n =
           (Inr (take (nat n) (drop (nat off) data)),
            f\<lparr>reader := Some r', bufOff := off, buf := b'\<rparr>) \<and>
           content r' = data \<and> len b' \<le> length (arr b') \<and>
           nat off + len b' \<le> length data \<and>
           bytesOf b' = take (len b') (drop (nat off) data)"
proof -
  obtain r where r: "reader f = Some r" using ok by (cases "reader f") (simp_all add: cacheOK_def)
  have c: "content r = data" "length data < 2 ^ 63" "0 \<le> bufOff f"
    "nat (bufOff f) + len (buf f) \<le> length data"
    using ok r by (simp_all add: cacheOK_def)
  note lb = length_int_bound [OF c(2)]
  have bo: "bufOff f + int (len (buf f)) \<le> int (length data)" using c(3,4) by linarith
  have w1: "wrap64 (off + n) = off + n" using off n fit lb by (intro wrap64_id') linarith+
  have w2: "wrap64 (bufOff f + int (len (buf f))) = bufOff f + int (len (buf f))"
    using c(3) bo lb by (intro wrap64_id') linarith+
  define B where "B = max 8192 n"
  have B: "0 \<le> B" "n \<le> B" by (simp_all add: B_def)
  obtain b1 where b1: "resizeBuf (buf f) B = Inr b1" "len b1 = nat B" "nat B \<le> length (arr b1)"
    using resizeBuf_pos [OF B(1), of "buf f"] by blast
  define bs where "bs = take (nat B) (drop (nat off) data)"
  define r2 where "r2 = r\<lparr>pos := off + int (length bs)\<rparr>"
  have posn: "\<not> int (length data) \<le> off" using n fit by linarith
  have rd: "Read (r\<lparr>pos := off\<rparr>) (len b1) = (r2, bs, None)"
    unfolding Read_def using posn c(1) b1(2) by (simp add: Let_def bs_def r2_def)
  have lbs: "length bs = min (nat B) (length data - nat off)" by (simp add: bs_def)
  have nb: "nat n \<le> length bs" using B(2) fit off n unfolding lbs by linarith
  then have nb': "\<not> int (length bs) < n" by linarith
  define b' where "b' = b1\<lparr>arr := bs @ drop (length bs) (arr b1), len := length bs\<rparr>"
  have lb1: "length bs \<le> length (arr b1)" using b1(3) lbs by linarith
  have inside: "nat off + length bs \<le> length data" using posn off unfolding lbs by linarith
  then have inside': "off + int (length bs) \<le> int (length data)" using off by linarith
  have w5: "wrap64 (off + int (length bs)) = off + int (length bs)"
    using off lb inside' by (intro wrap64_id') linarith+
  have nolate: "\<not> off + int (length bs) < off + n" using nb' by linarith
  have rf: "refill f off n (off + n) = (None, f\<lparr>reader := Some r2, bufOff := off, buf := b'\<rparr>)"
    unfolding refill_def
    using r off b1(1) rd nb' nolate
    by (simp add: Seek_def B_def [symmetric] Let_def w5 b'_def)
  have w3: "wrap64 n = n" "wrap64 0 = 0"
    using n fit off lb by (intro wrap64_id'; linarith)+
  have cap: "n \<le> int (length (arr b'))" using nb lb1 n by (simp add: b'_def)
  have "take (nat n) bs = take (nat n) (drop (nat off) data)"
    using B(2) by (simp add: bs_def min_def)
  then have "take (nat n) (arr b') = take (nat n) (drop (nat off) data)"
    using nb by (simp add: b'_def)
  then have sub: "subslice b' 0 n = Inr (take (nat n) (drop (nat off) data))"
    unfolding subslice_def using n cap by simp
  have res: "read f off n =
      (Inr (take (nat n) (drop (nat off) data)), f\<lparr>reader := Some r2, bufOff := off, buf := b'\<rparr>)"
    unfolding read_def Let_def w1 w2 using miss rf sub by (simp add: window_def w3)
  have "content r2 = data" by (simp add: r2_def c(1))
  moreover have "len b' \<le> length (arr b')" using lb1 by (simp add: b'_def)
  moreover have "nat off + len b' \<le> length data" using inside by (simp add: b'_def)
  moreover have "bytesOf b' = take (len b') (drop (nat off) data)"
    by (simp add: b'_def bytesOf_def bs_def)
  ultimately show ?thesis using res by blast
qed

lemma read_ok:
  assumes ok: "cacheOK f data" and off: "0 \<le> off" and n: "1 \<le> n"
    and fit: "off + n \<le> int (length data)"
  shows "fst (read f off n) = Inr (take (nat n) (drop (nat off) data)) \<and>
         cacheOK (snd (read f off n)) data \<and>
         seqs (snd (read f off n)) = seqs f \<and>
         opts (snd (read f off n)) = opts f \<and>
         resultBuf (snd (read f off n)) = resultBuf f"
proof (cases "off < bufOff f \<or> off + n > bufOff f + int (len (buf f))")
  case True
  obtain r' b' where m: "read f off n =
           (Inr (take (nat n) (drop (nat off) data)),
            f\<lparr>reader := Some r', bufOff := off, buf := b'\<rparr>)"
      "content r' = data" "len b' \<le> length (arr b')"
      "nat off + len b' \<le> length data"
      "bytesOf b' = take (len b') (drop (nat off) data)"
    using read_miss [OF ok off n fit True] by blast
  have "cacheOK (f\<lparr>reader := Some r', bufOff := off, buf := b'\<rparr>) data"
    using ok m(2-5) off unfolding cacheOK_def by (simp split: option.splits)
  then show ?thesis using m(1) by simp
next
  case False
  show ?thesis using read_hit [OF ok off n fit False] ok by simp
qed

subsection \<open>A request within a sequence the source holds\<close>

lemma basePos_extent:
  assumes "L \<le> W" "e \<le> n" "0 < L"
  shows "basePos L W e \<le> extent L W n"
proof -
  have "e div L \<le> (n + L - 1) div L"
    using assms(2,3) by (intro div_le_mono) linarith
  then have "(W - L) * (e div L) \<le> (W - L) * ((n + L - 1) div L)"
    by (rule mult_le_mono2)
  then show ?thesis
    unfolding basePos_alt [OF assms(1)] extent_def using assms(2) by linarith
qed

lemma sint_small:
  assumes "unat (w :: 64 word) < 2 ^ 63"
  shows "sint w = int (unat w)"
proof -
  have "int (unat w) < int (2 ^ 63)" using assms by (simp only: of_nat_less_iff)
  then have lt: "uint w < 2 ^ 63" by simp
  have ge: "- (2 ^ 63) \<le> uint w"
  proof -
    have "(0::int) \<le> uint w" by simp
    moreover have "- (2 ^ 63) \<le> (0::int)" by simp
    ultimately show ?thesis by (rule order_trans [rotated])
  qed
  have "signed_take_bit 63 (uint w) = uint w"
    by (rule signed_take_bit_int_eq_self [OF ge lt])
  then show ?thesis
    unfolding sint_uint by simp
qed

lemma spanN_ge: "s < e \<Longrightarrow> e - s \<le> spanN L W s e"
  by (simp add: spanN_def)

lemma Get_ok:
  assumes ok: "cacheOK f data" and ent: "seqs f seqName = Some ent"
    and se: "start < stop" and el: "stop \<le> length_e ent"
    and lb: "lineBase ent \<noteq> 0" and lw: "lineBase ent \<le> lineWidth ent"
    and fit: "unat (offset ent)
              + extent (unat (lineBase ent)) (unat (lineWidth ent)) (unat (length_e ent))
              \<le> length data"
  shows "fst (Get bs f seqName start stop) =
           Inr (transformed bs (opts f)
                  (map (\<lambda>i. data ! (unat (offset ent)
                                      + basePos (unat (lineBase ent)) (unat (lineWidth ent)) i))
                     [unat start..<unat stop])) \<and>
         cacheOK (snd (Get bs f seqName start stop)) data \<and>
         seqs (snd (Get bs f seqName start stop)) = seqs f \<and>
         opts (snd (Get bs f seqName start stop)) = opts f"
proof -
  define L where "L = unat (lineBase ent)"
  define W where "W = unat (lineWidth ent)"
  define s where "s = unat start"
  define e where "e = unat stop"
  define p where "p = unat (offset ent)"
  have L: "0 < L" using lb by (simp add: L_def unat_gt_0)
  have LW: "L \<le> W" using lw by (simp add: L_def W_def word_le_nat_alt)
  have se': "s < e" using se by (simp add: s_def e_def word_less_nat_alt)
  have el': "e \<le> unat (length_e ent)" using el by (simp add: e_def word_le_nat_alt)
  have dl: "length data < 2 ^ 63" using ok by (simp add: cacheOK_def split: option.splits)
  have ext: "p + basePos L W e \<le> length data"
    using basePos_extent [OF LW el' L] fit by (simp add: L_def W_def p_def)
  have sle: "basePos L W s + spanN L W s e \<le> basePos L W e"
    by (rule span_bound [OF L LW se'])
  have bse: "basePos L W s \<le> basePos L W e"
    using basePos_le [OF L LW, of s e] se' by simp
  have big: "(2::nat) ^ 63 < 2 ^ 64" by simp
  have nw1: "p + basePos L W s < 2 ^ 64" using ext bse dl big by linarith
  have nw2: "basePos L W e < 2 ^ 64" using ext dl big by linarith
  define q where "q = p + basePos L W s"
  define c where "c = spanN L W s e"
  have po: "unat (physOffset ent start) = q"
    using physOffset_unat [OF lb lw, of start] nw1 by (simp add: L_def W_def s_def p_def q_def)
  have cp: "unat (capacity ent start stop) = c"
    using capacity_unat [OF lb lw se] nw2 by (simp add: L_def W_def s_def e_def c_def)
  have lp: "unat ((physOffset ent start - offset ent) mod lineWidth ent) = s mod unat (lineBase ent)"
    using linePos_unat [OF lb lw, of start] nw1 by (simp add: L_def W_def s_def p_def)
  have n: "unat (stop - start) = e - s"
    using se by (simp add: unat_sub_le s_def e_def)
  have inside: "q + c \<le> length data" using ext sle unfolding q_def c_def by linarith
  have s1: "sint (physOffset ent start) = int q"
    using sint_small [of "physOffset ent start"] po inside dl by simp
  have s2: "sint (capacity ent start stop) = int c"
    using sint_small [of "capacity ent start stop"] cp inside dl by simp
  have s3: "sint (stop - start) = int (e - s)"
  proof -
    have "e - s \<le> c" unfolding c_def by (rule spanN_ge [OF se'])
    then show ?thesis using sint_small [of "stop - start"] n inside dl by simp
  qed
  have cap1: "1 \<le> int c" using spanN_ge [OF se', of L W] se' unfolding c_def by linarith
  define rd where "rd = read f (int q) (int c)"
  define buffer where "buffer = take c (drop q data)"
  have rdok: "fst rd = Inr buffer" "cacheOK (snd rd) data" "seqs (snd rd) = seqs f"
    "opts (snd rd) = opts f" "resultBuf (snd rd) = resultBuf f"
    using read_ok [OF ok _ cap1, of "int q"] inside
    by (simp_all add: rd_def buffer_def)
  have rbwf: "len (resultBuf (snd rd)) \<le> length (arr (resultBuf (snd rd)))"
    using rdok(2) by (simp add: cacheOK_def split: option.splits)
  obtain rb where rb: "resizeBuf (resultBuf (snd rd)) (int (e - s)) = Inr rb" "len rb = e - s"
    "e - s \<le> length (arr rb)"
    using resizeBuf_pos [of "int (e - s)" "resultBuf (snd rd)"] by auto
  have wne: "lineWidth ent \<noteq> 0" using L LW by (auto simp: W_def)
  have ds: "dataBytes (lineBase ent) (lineWidth ent)
              ((physOffset ent start - offset ent) mod lineWidth ent) buffer
            = map (\<lambda>i. data ! (p + basePos L W i)) [s..<e]"
    unfolding buffer_def L_def W_def q_def c_def
    by (rule dataBytes_span [OF _ _ se' lp])
      (use L LW inside in \<open>simp_all add: L_def W_def q_def c_def\<close>)
  define out where "out = map (\<lambda>i. data ! (p + basePos L W i)) [s..<e]"
  have lout: "length out = e - s" by (simp add: out_def)
  define rb1 where "rb1 = rb\<lparr>arr := out @ drop (e - s) (arr rb)\<rparr>"
  have cl: "copyLoop (lineBase ent) (lineWidth ent) buffer
              ((physOffset ent start - offset ent) mod lineWidth ent) 0 rb = (None, rb1)"
    using copyLoop_dataBytes [of 0 "lineBase ent" "lineWidth ent"
        "(physOffset ent start - offset ent) mod lineWidth ent" buffer rb] rb(2,3)
    by (simp add: ds out_def [symmetric] lout rb1_def)
  have rb1wf: "len rb1 \<le> length (arr rb1)" "bytesOf rb1 = out"
    using rb(2,3) lout by (simp_all add: rb1_def bytesOf_def)
  define rb2 where "rb2 = encodeInplace bs (opts (snd rd)) rb1"
  have rb2: "bytesOf rb2 = transformed bs (opts f) out" "len rb2 \<le> length (arr rb2)"
    using bytesOf_encodeInplace [OF rb1wf(1), of bs "opts (snd rd)"] rb1wf
      encodeInplace_len [of bs "opts (snd rd)" rb1] encodeInplace_cap [OF rb1wf(1), of bs "opts (snd rd)"]
    by (simp_all add: rb2_def rdok(4))
  have rdeq: "read f (int q) (int c) = (Inr buffer, snd rd)"
    using rdok(1) by (cases rd) (simp add: rd_def)
  have c1: "\<not> stop \<le> start" using se by simp
  have c2: "\<not> stop > length_e ent" using el by simp
  have rdeq': "read f (sint (physOffset ent start)) (sint (capacity ent start stop))
      = (Inr buffer, snd rd)"
    by (simp only: s1 s2 rdeq)
  have G: "Get bs f seqName start stop = (Inr (bytesOf rb2), (snd rd)\<lparr>resultBuf := rb2\<rparr>)"
    unfolding Get_def
    using c1 c2 ent lb wne rb(1) cl
    by (simp add: rdeq' s3 rb2_def [symmetric] Let_def)
  have "cacheOK ((snd rd)\<lparr>resultBuf := rb2\<rparr>) data"
    using rdok(2) rb2(2) unfolding cacheOK_def by (simp split: option.splits)
  then show ?thesis
    using G rb2(1) rdok(3,4) by (simp add: out_def L_def W_def s_def e_def p_def)
qed

lemma newLazyIndexed_cacheOK:
  "content r = data \<Longrightarrow> length data < 2 ^ 63 \<Longrightarrow>
   cacheOK (newLazyIndexed (Some r) index os) data"
  by (simp add: cacheOK_def newLazyIndexed_def nilSlice_def bytesOf_def)

lemma transformed_other: "Enc os = OtherEncoding \<Longrightarrow> transformed bs os v = v"
  by (simp add: transformed_def encodeInplace_def bytesOf_def)

lemma upt_shift: "[p + a ..< p + b] = map (\<lambda>x. p + x) [a ..< b]"
proof (induction p)
  case 0
  then show ?case by simp
next
  case (Suc p)
  have "[Suc p + a ..< Suc p + b] = map Suc [p + a ..< p + b]"
    by (simp add: map_Suc_upt)
  then show ?case by (simp add: Suc comp_def)
qed

lemma span_positions:
  assumes L: "0 < L" "L \<le> W" and se: "s < e"
  shows "filter (\<lambda>q. (q - p) mod W < L)
           [p + basePos L W s ..< p + (basePos L W s + spanN L W s e)]
         = map (\<lambda>i. p + basePos L W i) [s ..< e]"
proof -
  have "filter (\<lambda>q. (q - p) mod W < L) [p + basePos L W s ..< p + (basePos L W s + spanN L W s e)]
      = map (\<lambda>x. p + x) (filter (\<lambda>q. q mod W < L) [basePos L W s ..< basePos L W s + spanN L W s e])"
    unfolding upt_shift by (simp add: filter_map comp_def)
  then show ?thesis
    by (simp add: span_filter [OF L se] comp_def)
qed

lemma span_in_data:
  assumes se: "start < stop" and el: "stop \<le> length_e ent"
    and lb: "lineBase ent \<noteq> 0" and lw: "lineBase ent \<le> lineWidth ent"
    and fit: "unat (offset ent)
              + extent (unat (lineBase ent)) (unat (lineWidth ent)) (unat (length_e ent))
              \<le> length data"
    and dl: "length data < 2 ^ 63"
  shows "unat (physOffset ent start) =
           unat (offset ent) + basePos (unat (lineBase ent)) (unat (lineWidth ent)) (unat start)"
    and "unat (capacity ent start stop) =
           spanN (unat (lineBase ent)) (unat (lineWidth ent)) (unat start) (unat stop)"
    and "unat (physOffset ent start) + unat (capacity ent start stop) \<le> length data"
proof -
  define L where "L = unat (lineBase ent)"
  define W where "W = unat (lineWidth ent)"
  define s where "s = unat start"
  define e where "e = unat stop"
  define p where "p = unat (offset ent)"
  have L: "0 < L" using lb by (simp add: L_def unat_gt_0)
  have LW: "L \<le> W" using lw by (simp add: L_def W_def word_le_nat_alt)
  have se': "s < e" using se by (simp add: s_def e_def word_less_nat_alt)
  have el': "e \<le> unat (length_e ent)" using el by (simp add: e_def word_le_nat_alt)
  have ext: "p + basePos L W e \<le> length data"
    using basePos_extent [OF LW el' L] fit by (simp add: L_def W_def p_def)
  have sle: "basePos L W s + spanN L W s e \<le> basePos L W e"
    by (rule span_bound [OF L LW se'])
  have big: "(2::nat) ^ 63 < 2 ^ 64" by simp
  have nw1: "p + basePos L W s < 2 ^ 64" using ext sle dl big by linarith
  have nw2: "basePos L W e < 2 ^ 64" using ext dl big by linarith
  show po: "unat (physOffset ent start) =
           unat (offset ent) + basePos (unat (lineBase ent)) (unat (lineWidth ent)) (unat start)"
    using physOffset_unat [OF lb lw, of start] nw1 by (simp add: L_def W_def s_def p_def)
  show cp: "unat (capacity ent start stop) =
           spanN (unat (lineBase ent)) (unat (lineWidth ent)) (unat start) (unat stop)"
    using capacity_unat [OF lb lw se] nw2 by (simp add: L_def W_def s_def e_def)
  show "unat (physOffset ent start) + unat (capacity ent start stop) \<le> length data"
    unfolding po cp using ext sle by (simp add: L_def W_def s_def e_def p_def)
qed

lemma dataPositions_eq:
  assumes se: "start < stop" and el: "stop \<le> length_e ent"
    and lb: "lineBase ent \<noteq> 0" and lw: "lineBase ent \<le> lineWidth ent"
    and fit: "unat (offset ent)
              + extent (unat (lineBase ent)) (unat (lineWidth ent)) (unat (length_e ent))
              \<le> length data"
    and dl: "length data < 2 ^ 63"
  shows "dataPositions ent start stop =
           map (\<lambda>i. unat (offset ent) + basePos (unat (lineBase ent)) (unat (lineWidth ent)) i)
             [unat start ..< unat stop]"
proof -
  have L: "0 < unat (lineBase ent)" using lb by (simp add: unat_gt_0)
  have LW: "unat (lineBase ent) \<le> unat (lineWidth ent)" using lw by (simp add: word_le_nat_alt)
  have se': "unat start < unat stop" using se by (simp add: word_less_nat_alt)
  show ?thesis
    unfolding dataPositions_def span_in_data(1,2) [OF assms]
    using span_positions [OF L LW se', of "unat (offset ent)"] by (simp add: add.assoc)
qed

subsection \<open>The window stays coherent\<close>

text \<open>
  A new engine has a coherent window (\<open>newLazyIndexed_cacheOK\<close>), and when the source holds
  every sequence of the catalog as its entry describes it, every call of \<open>Get\<close>, whatever it
  is asked and whatever it answers, leaves the window coherent and the catalog and the options
  as they were: every engine reached from a new one is in this state. (A call that fails in
  \<open>read\<close> for want of bytes, on an entry the source does not hold, has already resized and
  overwritten the buffer when it returns.)
\<close>

lemma Get_keeps_cacheOK:
  assumes ok: "cacheOK f data"
    and all: "\<And>n ent. seqs f n = Some ent \<Longrightarrow>
               lineBase ent \<noteq> 0 \<and> lineBase ent \<le> lineWidth ent \<and>
               unat (offset ent)
                 + extent (unat (lineBase ent)) (unat (lineWidth ent)) (unat (length_e ent))
                 \<le> length data"
  shows "cacheOK (snd (Get bs f seqName start stop)) data \<and>
         seqs (snd (Get bs f seqName start stop)) = seqs f \<and>
         opts (snd (Get bs f seqName start stop)) = opts f"
proof (cases "stop \<le> start")
  case True
  then show ?thesis using ok by (simp add: Get_def)
next
  case False
  then have se: "start < stop" by simp
  show ?thesis
  proof (cases "seqs f seqName")
    case None
    then show ?thesis using ok False by (simp add: Get_def)
  next
    case (Some ent)
    show ?thesis
    proof (cases "stop > length_e ent")
      case True
      then show ?thesis using ok False Some by (simp add: Get_def)
    next
      case False
      then have el: "stop \<le> length_e ent" by simp
      have lay: "lineBase ent \<noteq> 0" "lineBase ent \<le> lineWidth ent"
        "unat (offset ent)
           + extent (unat (lineBase ent)) (unat (lineWidth ent)) (unat (length_e ent))
         \<le> length data"
        using all [OF Some] by simp_all
      show ?thesis
        using Get_ok [OF ok Some se el lay, of bs] by simp
    qed
  qed
qed

lemma reached_cacheOK:
  assumes ok: "cacheOK f0 data"
    and all: "\<And>n ent. seqs f0 n = Some ent \<Longrightarrow>
               lineBase ent \<noteq> 0 \<and> lineBase ent \<le> lineWidth ent \<and>
               unat (offset ent)
                 + extent (unat (lineBase ent)) (unat (lineWidth ent)) (unat (length_e ent))
                 \<le> length data"
    and r: "reached bs f0 f"
  shows "cacheOK f data \<and> seqs f = seqs f0 \<and> opts f = opts f0"
  using r
proof (induction rule: reached.induct)
  case reached_new
  show ?case using ok by simp
next
  case (reached_Get f seqName start stop)
  have "\<And>n ent. seqs f n = Some ent \<Longrightarrow>
               lineBase ent \<noteq> 0 \<and> lineBase ent \<le> lineWidth ent \<and>
               unat (offset ent)
                 + extent (unat (lineBase ent)) (unat (lineWidth ent)) (unat (length_e ent))
                 \<le> length data"
    using all reached_Get.IH by simp
  then show ?case
    using Get_keeps_cacheOK [of f data bs seqName start stop] reached_Get.IH by simp
qed

subsection \<open>The engine of the example\<close>

lemma one_le_word: "1 \<le> (w :: uint64) \<Longrightarrow> w \<noteq> 0"
  by auto

lemma seq1Engine_cacheOK: "cacheOK seq1Engine seq1Data"
  unfolding seq1Engine_def by (rule newLazyIndexed_cacheOK) (simp_all add: seq1Data_def)

lemma seq1Engine_seqs: "seqs seq1Engine ''seq1'' = Some seq1Entry"
  by (simp add: seq1Engine_def newLazyIndexed_def seq1Entry_def)

lemma seq1_fits:
  "unat (offset seq1Entry)
     + extent (unat (lineBase seq1Entry)) (unat (lineWidth seq1Entry)) (unat (length_e seq1Entry))
   \<le> length seq1Data"
  by (simp add: seq1Entry_def seq1Data_def extent_def)

subsection \<open>The bytes Get returns\<close>

text \<open>
  C1. Let the engine read the source \<open>data\<close> with a coherent window (as every new engine
  does), let \<open>seqName\<close> be in the catalog with \<open>lineBase \<ge> 1\<close> and \<open>lineWidth \<ge> lineBase\<close>,
  let the data hold the whole sequence in lines that all end with their line break, and let
  \<open>start < end \<le> length\<close>. Then \<open>Get\<close> returns a string: the bytes of the data at those
  positions of the computed span \<open>[physOffset, physOffset + capacity)\<close> whose position in the
  line is below \<open>lineBase\<close>, passed through the selected transform. There are exactly
  \<open>end - start\<close> such positions, the string has exactly \<open>end - start\<close> bytes, and without a
  transform it is these bytes themselves: no byte of a line break is among them.
\<close>

theorem Get_valid_request:
  assumes ok: "cacheOK f data" and ent: "seqs f seqName = Some ent"
    and se: "start < stop" and el: "stop \<le> length_e ent"
    and lb: "1 \<le> lineBase ent" and lw: "lineBase ent \<le> lineWidth ent"
    and fit: "unat (offset ent)
              + extent (unat (lineBase ent)) (unat (lineWidth ent)) (unat (length_e ent))
              \<le> length data"
  shows "fst (Get bs f seqName start stop) =
           Inr (transformed bs (opts f) (map (\<lambda>q. data ! q) (dataPositions ent start stop))) \<and>
         length (transformed bs (opts f) (map (\<lambda>q. data ! q) (dataPositions ent start stop)))
           = unat stop - unat start \<and>
         length (dataPositions ent start stop) = unat stop - unat start \<and>
         list_all (\<lambda>q. q < length data) (dataPositions ent start stop) \<and>
         (Enc (opts f) = OtherEncoding \<longrightarrow>
            fst (Get bs f seqName start stop)
              = Inr (map (\<lambda>q. data ! q) (dataPositions ent start stop)))"
proof -
  have lb': "lineBase ent \<noteq> 0" by (rule one_le_word [OF lb])
  have dl: "length data < 2 ^ 63" using ok by (simp add: cacheOK_def split: option.splits)
  have dp: "dataPositions ent start stop =
           map (\<lambda>i. unat (offset ent) + basePos (unat (lineBase ent)) (unat (lineWidth ent)) i)
             [unat start ..< unat stop]"
    by (rule dataPositions_eq [OF se el lb' lw fit dl])
  have G: "fst (Get bs f seqName start stop) =
           Inr (transformed bs (opts f) (map (\<lambda>q. data ! q) (dataPositions ent start stop)))"
    using Get_ok [OF ok ent se el lb' lw fit, of bs] by (simp add: dp comp_def)
  have len: "length (dataPositions ent start stop) = unat stop - unat start"
    by (simp add: dp)
  have inb: "list_all (\<lambda>q. q < length data) (dataPositions ent start stop)"
    unfolding dataPositions_def list_all_iff
    using span_in_data(3) [OF se el lb' lw fit dl] by auto
  show ?thesis
    using G len inb by (simp add: transformed_length transformed_other)
qed

theorem Get_valid_request_witness:
  "cacheOK seq1Engine seq1Data \<and> seqs seq1Engine ''seq1'' = Some seq1Entry \<and>
   (2 :: uint64) < 8 \<and> 8 \<le> length_e seq1Entry \<and>
   1 \<le> lineBase seq1Entry \<and> lineBase seq1Entry \<le> lineWidth seq1Entry \<and>
   unat (offset seq1Entry)
     + extent (unat (lineBase seq1Entry)) (unat (lineWidth seq1Entry)) (unat (length_e seq1Entry))
     \<le> length seq1Data \<and>
   dataPositions seq1Entry 2 8 = [2, 3, 5, 6, 7, 8] \<and>
   fst (Get noBiosimd seq1Engine ''seq1'' 2 8) = Inr ''GTACGT''"
proof -
  have h: "(2 :: uint64) < 8" "8 \<le> length_e seq1Entry" "1 \<le> lineBase seq1Entry"
    "lineBase seq1Entry \<le> lineWidth seq1Entry"
    by (simp_all add: seq1Entry_def)
  have dp: "dataPositions seq1Entry 2 8 = [2, 3, 5, 6, 7, 8]"
    by (simp add: dataPositions_def physOffset_def capacity_def newlinesToRead_def
        firstLineBases_def charsPerNewline_def seq1Entry_def upt_rec)
  have o: "Enc (opts seq1Engine) = OtherEncoding" by (simp add: seq1Engine_def newLazyIndexed_def)
  have "fst (Get noBiosimd seq1Engine ''seq1'' 2 8)
        = Inr (map (\<lambda>q. seq1Data ! q) (dataPositions seq1Entry 2 8))"
    using Get_valid_request [OF seq1Engine_cacheOK seq1Engine_seqs h seq1_fits, of noBiosimd] o
    by blast
  then have "fst (Get noBiosimd seq1Engine ''seq1'' 2 8) = Inr ''GTACGT''"
    by (simp add: dp seq1Data_def LF_def)
  then show ?thesis
    using seq1Engine_cacheOK seq1Engine_seqs h seq1_fits dp by simp
qed

subsection \<open>Scanning and parsing single lines\<close>

declare scanLines.simps [simp del]

lemma scanLines_Nil: "scanLines [] = []"
  by (simp add: scanLines.simps)

lemma scanLines_last:
  assumes "l \<noteq> []" "list_all notLF l" "length l < MaxScanTokenSize"
  shows "scanLines l = [dropCR l]"
proof -
  have t: "takeWhile notLF l = l" and d: "dropWhile notLF l = []"
    using assms(2) by (simp_all add: list_all_iff)
  show ?thesis
    using assms(1,3) by (subst scanLines.simps) (simp add: t d scanLines_Nil)
qed

lemma scanLines_line:
  assumes "list_all notLF l" "length l < MaxScanTokenSize"
  shows "scanLines (l @ LF # rest) = dropCR l # scanLines rest"
proof -
  have n: "\<not> notLF LF" by (simp add: notLF_def)
  have t: "takeWhile notLF (l @ LF # rest) = l"
    using assms(1) n by (simp add: list_all_iff takeWhile_append2)
  have d: "dropWhile notLF (l @ LF # rest) = LF # rest"
    using assms(1) n by (simp add: list_all_iff dropWhile_append2)
  show ?thesis
    using assms(2) by (subst scanLines.simps) (simp add: t d)
qed

lemmas index_eval =
  matchHere_def tabDigits_def TAB_def LF_def CR_def FF_def isSpace_def notSpace_def notLF_def
  isDigit_def ParseUint_def decimal_def digitVal_def dropCR_def MaxScanTokenSize_def
  parseIndex_def

lemma parseIndex_seq1: "parseIndex seq1Index = Inr ([seq1Entry], None)"
  by (simp add: seq1Index_def seq1Entry_def scanLines_last index_eval)

lemma NewIndexed_seq1:
  "NewIndexed (Some \<lparr>content = seq1Data, pos = 0\<rparr>) seq1Index \<lparr>Enc = OtherEncoding\<rparr>
   = Inr seq1Engine"
  by (simp add: NewIndexed_def parseIndex_seq1 seq1Engine_def)

lemma seq1Engine_opts: "Enc (opts seq1Engine) = OtherEncoding"
  by (simp add: seq1Engine_def newLazyIndexed_def)

lemma seq1_Get_2_8: "fst (Get bs seq1Engine ''seq1'' 2 8) = Inr ''GTACGT''"
proof -
  have h: "(2 :: uint64) < 8" "8 \<le> length_e seq1Entry" "lineBase seq1Entry \<noteq> 0"
    "lineBase seq1Entry \<le> lineWidth seq1Entry"
    by (simp_all add: seq1Entry_def)
  show ?thesis
    using Get_ok [OF seq1Engine_cacheOK seq1Engine_seqs h seq1_fits, of bs]
    by (simp add: transformed_other [OF seq1Engine_opts] seq1Entry_def seq1Data_def LF_def
        basePos_def upt_rec)
qed

subsection \<open>The example of the specification\<close>

text \<open>
  C2 (as amended). On the engine built from the index line \<open>seq1 10 0 4 5\<close> over the data
  \<open>ACGT\<close>, \<open>ACGT\<close>, \<open>AC\<close> (each line ended by a newline), \<open>Get("seq1", 2, 8)\<close> returns the
  six bases \<open>GTACGT\<close>: bases 2 and 3 of the first line and the four bases of the second.
\<close>

theorem Get_worked_example:
  "NewIndexed (Some \<lparr>content = seq1Data, pos = 0\<rparr>) seq1Index \<lparr>Enc = OtherEncoding\<rparr>
     = Inr seq1Engine \<and>
   fst (Get noBiosimd seq1Engine ''seq1'' 2 8) = Inr ''GTACGT''"
  using NewIndexed_seq1 seq1_Get_2_8 [of noBiosimd] by simp

text \<open>The string the claim names is not the one returned: it is two bases short.\<close>

theorem Get_worked_example_counterexample:
  "NewIndexed (Some \<lparr>content = seq1Data, pos = 0\<rparr>) seq1Index \<lparr>Enc = OtherEncoding\<rparr>
     = Inr seq1Engine \<and>
   fst (Get noBiosimd seq1Engine ''seq1'' 2 8) \<noteq> Inr ''GTAC''"
  using NewIndexed_seq1 seq1_Get_2_8 [of noBiosimd] by simp

lemma window_not_error: "window f off limit \<noteq> Inl (Error e)"
  by (simp add: window_def split: sum.splits)

lemma read_no_eof:
  assumes r: "reader f = Some r" and off: "0 \<le> off" and n: "1 \<le> n"
    and fit: "off + n \<le> int (length (content r))"
  shows "fst (read f off n) \<noteq> Inl (Error UnexpectedEndOfStreamError)"
proof -
  define B where "B = max 8192 n"
  have B: "0 \<le> B" "n \<le> B" by (simp_all add: B_def)
  obtain b1 where b1: "resizeBuf (buf f) B = Inr b1" "len b1 = nat B" "nat B \<le> length (arr b1)"
    using resizeBuf_pos [OF B(1), of "buf f"] by blast
  define bs where "bs = take (nat B) (drop (nat off) (content r))"
  have posn: "\<not> int (length (content r)) \<le> off" using n fit by linarith
  have rd: "Read (r\<lparr>pos := off\<rparr>) (len b1) = (r\<lparr>pos := off + int (length bs)\<rparr>, bs, None)"
    unfolding Read_def using posn b1(2) by (simp add: Let_def bs_def)
  have lbs: "length bs = min (nat B) (length (content r) - nat off)" by (simp add: bs_def)
  have nb': "\<not> int (length bs) < n" using B(2) fit off n unfolding lbs by linarith
  have rf: "fst (refill f off n limit) \<noteq> Some (Error UnexpectedEndOfStreamError)" for limit
    unfolding refill_def using r off b1(1) rd nb'
    by (simp add: Seek_def B_def [symmetric] Let_def)
  have rf': "refill f off n limit \<noteq> (Some (Error UnexpectedEndOfStreamError), g)" for limit g
    using rf [of limit] by (cases "refill f off n limit") auto
  show ?thesis
    unfolding read_def Let_def using rf' window_not_error
    by (auto split: prod.splits option.splits)
qed

lemma Get_no_eof:
  assumes r: "reader f = Some r" and dl: "length (content r) < 2 ^ 63"
    and ent: "seqs f seqName = Some ent"
    and se: "start < stop" and el: "stop \<le> length_e ent"
    and lb: "lineBase ent \<noteq> 0" and lw: "lineBase ent \<le> lineWidth ent"
    and fit: "unat (offset ent)
              + extent (unat (lineBase ent)) (unat (lineWidth ent)) (unat (length_e ent))
              \<le> length (content r)"
  shows "fst (Get bs f seqName start stop) \<noteq> Inl (Error UnexpectedEndOfStreamError)"
proof -
  note sp = span_in_data [OF se el lb lw fit dl]
  have s1: "sint (physOffset ent start) = int (unat (physOffset ent start))"
    using sint_small [of "physOffset ent start"] sp(3) dl by simp
  have s2: "sint (capacity ent start stop) = int (unat (capacity ent start stop))"
    using sint_small [of "capacity ent start stop"] sp(3) dl by simp
  have L: "0 < unat (lineBase ent)" using lb by (simp add: unat_gt_0)
  have se': "unat start < unat stop" using se by (simp add: word_less_nat_alt)
  have "1 \<le> unat (capacity ent start stop)"
    unfolding sp(2)
    using spanN_ge [OF se', of "unat (lineBase ent)" "unat (lineWidth ent)"] se' by linarith
  then have c1: "1 \<le> int (unat (capacity ent start stop))" by linarith
  have fit': "int (unat (physOffset ent start)) + int (unat (capacity ent start stop))
              \<le> int (length (content r))"
    using sp(3) by linarith
  have ne: "fst (read f (sint (physOffset ent start)) (sint (capacity ent start stop)))
            \<noteq> Inl (Error UnexpectedEndOfStreamError)"
    unfolding s1 s2 by (rule read_no_eof [OF r _ c1 fit']) simp
  have ne': "read f (sint (physOffset ent start)) (sint (capacity ent start stop))
            \<noteq> (Inl (Error UnexpectedEndOfStreamError), g)" for g
    using ne by (cases "read f (sint (physOffset ent start)) (sint (capacity ent start stop))") auto
  show ?thesis
    unfolding Get_def using ent ne'
    by (auto simp: Let_def split: prod.splits sum.splits option.splits)
qed

subsection \<open>Reading a whole sequence\<close>

text \<open>
  C3. Let \<open>seqName\<close> be in the catalog with a length above zero, \<open>lineBase \<ge> 1\<close> and
  \<open>lineWidth \<ge> lineBase\<close>, and let the source hold the sequence in lines that all end with
  their line break, the last one too. Then the span \<open>Get(seqName, 0, length)\<close> computes,
  \<open>[physOffset, physOffset + capacity)\<close>, lies within the source, and whatever the window
  holds, \<open>Get\<close> does not return the error of an unexpected end of the file; with a coherent
  window it returns the bases. A length that is a multiple of \<open>lineBase\<close> is no exception.
\<close>

theorem Get_whole_sequence_within_source:
  assumes r: "reader f = Some r" and dl: "length (content r) < 2 ^ 63"
    and ent: "seqs f seqName = Some ent" and pos: "0 < length_e ent"
    and lb: "1 \<le> lineBase ent" and lw: "lineBase ent \<le> lineWidth ent"
    and fit: "unat (offset ent)
              + extent (unat (lineBase ent)) (unat (lineWidth ent)) (unat (length_e ent))
              \<le> length (content r)"
  shows "unat (physOffset ent 0) + unat (capacity ent 0 (length_e ent)) \<le> length (content r) \<and>
         fst (Get bs f seqName 0 (length_e ent)) \<noteq> Inl (Error UnexpectedEndOfStreamError) \<and>
         (cacheOK f (content r) \<longrightarrow>
            fst (Get bs f seqName 0 (length_e ent))
              = Inr (transformed bs (opts f)
                       (map (\<lambda>q. content r ! q) (dataPositions ent 0 (length_e ent)))))"
proof -
  have lb': "lineBase ent \<noteq> 0" by (rule one_le_word [OF lb])
  have el: "length_e ent \<le> length_e ent" by simp
  have a: "unat (physOffset ent 0) + unat (capacity ent 0 (length_e ent)) \<le> length (content r)"
    by (rule span_in_data(3) [OF pos el lb' lw fit dl])
  have b: "fst (Get bs f seqName 0 (length_e ent)) \<noteq> Inl (Error UnexpectedEndOfStreamError)"
    by (rule Get_no_eof [OF r dl ent pos el lb' lw fit])
  have c: "fst (Get bs f seqName 0 (length_e ent))
              = Inr (transformed bs (opts f)
                       (map (\<lambda>q. content r ! q) (dataPositions ent 0 (length_e ent))))"
    if ok: "cacheOK f (content r)"
    using Get_ok [OF ok ent pos el lb' lw fit, of bs]
    by (simp add: dataPositions_eq [OF pos el lb' lw fit dl] comp_def)
  show ?thesis using a b c by blast
qed

lemma seq2Engine_cacheOK: "cacheOK seq2Engine seq2Data"
  unfolding seq2Engine_def by (rule newLazyIndexed_cacheOK) (simp_all add: seq2Data_def)

theorem Get_whole_sequence_within_source_witness:
  "reader seq2Engine = Some \<lparr>content = seq2Data, pos = 0\<rparr> \<and>
   length seq2Data < 2 ^ 63 \<and> seqs seq2Engine ''seq2'' = Some seq2Entry \<and>
   0 < length_e seq2Entry \<and> 1 \<le> lineBase seq2Entry \<and>
   lineBase seq2Entry \<le> lineWidth seq2Entry \<and>
   unat (offset seq2Entry)
     + extent (unat (lineBase seq2Entry)) (unat (lineWidth seq2Entry)) (unat (length_e seq2Entry))
     \<le> length seq2Data \<and>
   unat (length_e seq2Entry) mod unat (lineBase seq2Entry) = 0 \<and>
   unat (physOffset seq2Entry 0) + unat (capacity seq2Entry 0 8) = 10 \<and> length seq2Data = 10 \<and>
   fst (Get noBiosimd seq2Engine ''seq2'' 0 8) \<noteq> Inl (Error UnexpectedEndOfStreamError) \<and>
   fst (Get noBiosimd seq2Engine ''seq2'' 0 8) = Inr ''ACGTTTGA''"
proof -
  have r: "reader seq2Engine = Some \<lparr>content = seq2Data, pos = 0\<rparr>"
    by (simp add: seq2Engine_def newLazyIndexed_def)
  have dl: "length (content \<lparr>content = seq2Data, pos = 0\<rparr>) < 2 ^ 63"
    by (simp add: seq2Data_def)
  have ent: "seqs seq2Engine ''seq2'' = Some seq2Entry"
    by (simp add: seq2Engine_def newLazyIndexed_def seq2Entry_def)
  have h: "0 < length_e seq2Entry" "1 \<le> lineBase seq2Entry"
    "lineBase seq2Entry \<le> lineWidth seq2Entry"
    by (simp_all add: seq2Entry_def)
  have fit: "unat (offset seq2Entry)
     + extent (unat (lineBase seq2Entry)) (unat (lineWidth seq2Entry)) (unat (length_e seq2Entry))
     \<le> length (content \<lparr>content = seq2Data, pos = 0\<rparr>)"
    by (simp add: seq2Entry_def seq2Data_def extent_def)
  have len: "length_e seq2Entry = 8" by (simp add: seq2Entry_def)
  have o: "Enc (opts seq2Engine) = OtherEncoding" by (simp add: seq2Engine_def newLazyIndexed_def)
  have dp: "dataPositions seq2Entry 0 8 = [0, 1, 2, 3, 5, 6, 7, 8]"
    by (simp add: dataPositions_def physOffset_def capacity_def newlinesToRead_def
        firstLineBases_def charsPerNewline_def seq2Entry_def upt_rec)
  have sp: "unat (physOffset seq2Entry 0) + unat (capacity seq2Entry 0 8) = 10"
    by (simp add: physOffset_def capacity_def newlinesToRead_def
        firstLineBases_def charsPerNewline_def seq2Entry_def)
  note T = Get_whole_sequence_within_source [OF r dl ent h fit, of noBiosimd, unfolded len]
  have ne: "fst (Get noBiosimd seq2Engine ''seq2'' 0 8) \<noteq> Inl (Error UnexpectedEndOfStreamError)"
    using T by blast
  have "fst (Get noBiosimd seq2Engine ''seq2'' 0 8)
        = Inr (transformed noBiosimd (opts seq2Engine)
                 (map (\<lambda>q. seq2Data ! q) (dataPositions seq2Entry 0 8)))"
    using T seq2Engine_cacheOK by simp
  then have res: "fst (Get noBiosimd seq2Engine ''seq2'' 0 8) = Inr ''ACGTTTGA''"
    by (simp add: transformed_other [OF o] dp seq2Data_def LF_def)
  show ?thesis
    using r dl ent h fit ne res sp by (simp add: seq2Entry_def seq2Data_def)
qed

subsection \<open>Two halves and the whole\<close>

text \<open>
  C8. Under the conditions of C1, for a split point \<open>0 < k < length\<close>: \<open>Get(name, 0, k)\<close>,
  then \<open>Get(name, k, length)\<close>, then \<open>Get(name, 0, length)\<close> on the same engine and source
  all return strings, and the third is the first followed by the second; so is
  \<open>Get(name, 0, length)\<close> on the engine as it was before the calls. The selected function of
  \<open>biosimd\<close> is a parameter: the property is stated for one that treats two pieces one after
  the other as it treats them joined (as every bytewise function does, and as no transform at
  all does).
\<close>

theorem Get_split_concat:
  assumes ok: "cacheOK f data" and ent: "seqs f seqName = Some ent"
    and k0: "0 < k" and kl: "k < length_e ent"
    and lb: "1 \<le> lineBase ent" and lw: "lineBase ent \<le> lineWidth ent"
    and fit: "unat (offset ent)
              + extent (unat (lineBase ent)) (unat (lineWidth ent)) (unat (length_e ent))
              \<le> length data"
    and dist: "\<forall>u v. transformed bs (opts f) (u @ v)
                      = transformed bs (opts f) u @ transformed bs (opts f) v"
  shows "\<exists>a b.
           fst (Get bs f seqName 0 k) = Inr a \<and>
           fst (Get bs (snd (Get bs f seqName 0 k)) seqName k (length_e ent)) = Inr b \<and>
           fst (Get bs (snd (Get bs (snd (Get bs f seqName 0 k)) seqName k (length_e ent)))
                  seqName 0 (length_e ent)) = Inr (a @ b) \<and>
           fst (Get bs f seqName 0 (length_e ent)) = Inr (a @ b)"
proof -
  define at where "at = (\<lambda>i. data ! (unat (offset ent)
                           + basePos (unat (lineBase ent)) (unat (lineWidth ent)) i))"
  define f1 where "f1 = snd (Get bs f seqName 0 k)"
  define f2 where "f2 = snd (Get bs f1 seqName k (length_e ent))"
  have lb': "lineBase ent \<noteq> 0" by (rule one_le_word [OF lb])
  have kle: "k \<le> length_e ent" using kl by simp
  have pos: "0 < length_e ent" using k0 kl by (rule less_trans)
  have ll: "length_e ent \<le> length_e ent" by simp
  have g1: "fst (Get bs f seqName 0 k) = Inr (transformed bs (opts f) (map at [0..<unat k]))"
    and s1: "cacheOK f1 data" "seqs f1 = seqs f" "opts f1 = opts f"
    using Get_ok [OF ok ent k0 kle lb' lw fit, of bs] by (simp_all add: at_def f1_def)
  have ent1: "seqs f1 seqName = Some ent" using ent s1(2) by simp
  have g2: "fst (Get bs f1 seqName k (length_e ent))
            = Inr (transformed bs (opts f) (map at [unat k..<unat (length_e ent)]))"
    and s2: "cacheOK f2 data" "seqs f2 = seqs f" "opts f2 = opts f"
    using Get_ok [OF s1(1) ent1 kl ll lb' lw fit, of bs] s1(2,3) by (simp_all add: at_def f2_def)
  have ent2: "seqs f2 seqName = Some ent" using ent s2(2) by simp
  have g3: "fst (Get bs f2 seqName 0 (length_e ent))
            = Inr (transformed bs (opts f) (map at [0..<unat (length_e ent)]))"
    using Get_ok [OF s2(1) ent2 pos ll lb' lw fit, of bs] s2(3) by (simp add: at_def)
  have g0: "fst (Get bs f seqName 0 (length_e ent))
            = Inr (transformed bs (opts f) (map at [0..<unat (length_e ent)]))"
    using Get_ok [OF ok ent pos ll lb' lw fit, of bs] by (simp add: at_def)
  have "unat k \<le> unat (length_e ent)" using kle by (simp add: word_le_nat_alt)
  then have "[0..<unat (length_e ent)] = [0..<unat k] @ [unat k..<unat (length_e ent)]"
    using upt_add_eq_append [of 0 "unat k" "unat (length_e ent) - unat k"] by simp
  then have cat: "transformed bs (opts f) (map at [0..<unat (length_e ent)])
      = transformed bs (opts f) (map at [0..<unat k])
        @ transformed bs (opts f) (map at [unat k..<unat (length_e ent)])"
    using dist by simp
  show ?thesis
    using g1 g2 g3 g0 cat unfolding f1_def f2_def by simp
qed

theorem Get_split_concat_witness:
  "cacheOK seq1Engine seq1Data \<and> seqs seq1Engine ''seq1'' = Some seq1Entry \<and>
   (0 :: uint64) < 4 \<and> 4 < length_e seq1Entry \<and>
   1 \<le> lineBase seq1Entry \<and> lineBase seq1Entry \<le> lineWidth seq1Entry \<and>
   unat (offset seq1Entry)
     + extent (unat (lineBase seq1Entry)) (unat (lineWidth seq1Entry)) (unat (length_e seq1Entry))
     \<le> length seq1Data \<and>
   (\<forall>u v. transformed noBiosimd (opts seq1Engine) (u @ v)
           = transformed noBiosimd (opts seq1Engine) u @ transformed noBiosimd (opts seq1Engine) v) \<and>
   fst (Get noBiosimd seq1Engine ''seq1'' 0 4) = Inr ''ACGT'' \<and>
   fst (Get noBiosimd (snd (Get noBiosimd seq1Engine ''seq1'' 0 4)) ''seq1'' 4 10)
     = Inr ''ACGTAC'' \<and>
   fst (Get noBiosimd
          (snd (Get noBiosimd (snd (Get noBiosimd seq1Engine ''seq1'' 0 4)) ''seq1'' 4 10))
          ''seq1'' 0 10) = Inr ''ACGTACGTAC''"
proof -
  have h: "(0 :: uint64) < 4" "4 < length_e seq1Entry" "1 \<le> lineBase seq1Entry"
    "lineBase seq1Entry \<le> lineWidth seq1Entry"
    by (simp_all add: seq1Entry_def)
  have h': "4 \<le> length_e seq1Entry" "lineBase seq1Entry \<noteq> 0"
    "length_e seq1Entry \<le> length_e seq1Entry"
    by (simp_all add: seq1Entry_def)
  have len: "length_e seq1Entry = 10" by (simp add: seq1Entry_def)
  have dist: "\<forall>u v. transformed noBiosimd (opts seq1Engine) (u @ v)
           = transformed noBiosimd (opts seq1Engine) u @ transformed noBiosimd (opts seq1Engine) v"
    by (simp add: transformed_other [OF seq1Engine_opts])
  define f1 where "f1 = snd (Get noBiosimd seq1Engine ''seq1'' 0 4)"
  have g1: "fst (Get noBiosimd seq1Engine ''seq1'' 0 4) = Inr ''ACGT''"
    and s1: "cacheOK f1 seq1Data" "seqs f1 = seqs seq1Engine" "opts f1 = opts seq1Engine"
    using Get_ok [OF seq1Engine_cacheOK seq1Engine_seqs h(1) h'(1,2) h(4) seq1_fits, of noBiosimd]
    by (simp_all add: f1_def transformed_other [OF seq1Engine_opts] seq1Entry_def seq1Data_def
        LF_def basePos_def upt_rec)
  have ent1: "seqs f1 ''seq1'' = Some seq1Entry" using s1(2) seq1Engine_seqs by simp
  have o1: "Enc (opts f1) = OtherEncoding" using s1(3) seq1Engine_opts by simp
  have g2: "fst (Get noBiosimd f1 ''seq1'' 4 10) = Inr ''ACGTAC''"
    using Get_ok [OF s1(1) ent1 h(2) h'(3,2) h(4) seq1_fits, of noBiosimd]
    by (simp add: transformed_other [OF o1] seq1Entry_def seq1Data_def
        LF_def basePos_def upt_rec)
  obtain a b where ab: "fst (Get noBiosimd seq1Engine ''seq1'' 0 4) = Inr a"
     "fst (Get noBiosimd f1 ''seq1'' 4 10) = Inr b"
     "fst (Get noBiosimd (snd (Get noBiosimd f1 ''seq1'' 4 10)) ''seq1'' 0 10) = Inr (a @ b)"
    using Get_split_concat [OF seq1Engine_cacheOK seq1Engine_seqs h seq1_fits dist]
    unfolding len f1_def by blast
  have "a = ''ACGT''" "b = ''ACGTAC''" using ab(1,2) g1 g2 by simp_all
  then have g3: "fst (Get noBiosimd (snd (Get noBiosimd f1 ''seq1'' 4 10)) ''seq1'' 0 10)
      = Inr ''ACGTACGTAC''"
    using ab(3) by simp
  show ?thesis
    using seq1Engine_cacheOK seq1Engine_seqs h seq1_fits dist g1 g2 g3 unfolding f1_def
    by simp
qed

subsection \<open>The order of the checks of Get\<close>

text \<open>
  C6 (as amended). \<open>Get\<close> compares \<open>start\<close> and \<open>end\<close> before it looks the name up: for a
  name that is not in the catalog it returns the error "start must be less than end" when
  \<open>end \<le> start\<close>, and the error "sequence not found in index" only when \<open>start < end\<close>. The
  engine is left as it was.
\<close>

theorem Get_absent_name:
  "seqs f seqName = None \<Longrightarrow>
   Get bs f seqName start stop =
     (if stop \<le> start then (Inl (Error InvalidRangeError), f)
      else (Inl (Error (NotFoundError seqName)), f))"
  by (simp add: Get_def)

theorem Get_absent_name_witness:
  "seqs (newLazyIndexed None [] \<lparr>Enc = OtherEncoding\<rparr>) ''chrX'' = None \<and>
   fst (Get \<lparr>CleanASCIISeqInplace = (\<lambda>b. b), ASCIIToSeq8Inplace = (\<lambda>b. b)\<rparr>
          (newLazyIndexed None [] \<lparr>Enc = OtherEncoding\<rparr>) ''chrX'' 3 5)
     = Inl (Error (NotFoundError ''chrX''))"
proof -
  have a: "seqs (newLazyIndexed None [] \<lparr>Enc = OtherEncoding\<rparr>) ''chrX'' = None"
    by (simp add: newLazyIndexed_def)
  show ?thesis
    using a Get_absent_name [OF a, of "\<lparr>CleanASCIISeqInplace = (\<lambda>b. b), ASCIIToSeq8Inplace = (\<lambda>b. b)\<rparr>" 3 5]
    by simp
qed

text \<open>
  The claim as stated fails: the name \<open>chrX\<close> is absent, \<open>start = 5\<close>, \<open>end = 3\<close>, and the
  error is not the one for a missing name.
\<close>

theorem Get_absent_name_counterexample:
  "seqs (newLazyIndexed None [] \<lparr>Enc = OtherEncoding\<rparr>) ''chrX'' = None \<and>
   fst (Get \<lparr>CleanASCIISeqInplace = (\<lambda>b. b), ASCIIToSeq8Inplace = (\<lambda>b. b)\<rparr>
          (newLazyIndexed None [] \<lparr>Enc = OtherEncoding\<rparr>) ''chrX'' 5 3)
     = Inl (Error InvalidRangeError) \<and>
   fst (Get \<lparr>CleanASCIISeqInplace = (\<lambda>b. b), ASCIIToSeq8Inplace = (\<lambda>b. b)\<rparr>
          (newLazyIndexed None [] \<lparr>Enc = OtherEncoding\<rparr>) ''chrX'' 5 3)
     \<noteq> Inl (Error (NotFoundError ''chrX''))"
  by (simp add: Get_def newLazyIndexed_def)

subsection \<open>Lines of the index that do not parse\<close>

lemma parseLines_error_nil:
  "parseLines ts acc = Inr (es, Some e) \<Longrightarrow> es = []"
proof (induction ts arbitrary: acc)
  case Nil
  then show ?case by simp
next
  case (Cons t ts)
  then show ?case
    by (auto simp: Let_def split: if_splits sum.splits)
qed

lemma parseLines_append:
  "parseLines pre acc = Inr (es, None) \<Longrightarrow> parseLines (pre @ rest) acc = parseLines rest es"
proof (induction pre arbitrary: acc)
  case Nil
  then show ?case by simp
next
  case (Cons t ts)
  then show ?case
    by (auto simp: Let_def split: if_splits sum.splits)
qed

lemma count_dropWhile_le: "count_list (dropWhile P s) x \<le> count_list s x"
  by (induction s) auto

lemma tabDigits_count:
  "tabDigits s = Some (d, r) \<Longrightarrow> Suc (count_list r TAB) \<le> count_list s TAB"
  using count_dropWhile_le [of isDigit _ TAB]
  by (cases s) (auto simp: tabDigits_def split: if_splits)

lemma matchHere_count:
  assumes "matchHere s = Some m"
  shows "4 \<le> count_list s TAB"
proof -
  obtain d1 r1 d2 r2 d3 r3 d4 r4 where
    t: "tabDigits (dropWhile notSpace s) = Some (d1, r1)" "tabDigits r1 = Some (d2, r2)"
       "tabDigits r2 = Some (d3, r3)" "tabDigits r3 = Some (d4, r4)"
    using assms by (auto simp: matchHere_def Let_def split: if_splits option.splits)
  have "Suc (count_list r1 TAB) \<le> count_list s TAB"
    using tabDigits_count [OF t(1)] count_dropWhile_le [of notSpace s TAB] by linarith
  then show ?thesis
    using tabDigits_count [OF t(2)] tabDigits_count [OF t(3)] tabDigits_count [OF t(4)]
    by linarith
qed

lemma FindStringSubmatch_few_tabs:
  "count_list t TAB < 4 \<Longrightarrow> FindStringSubmatch t = []"
proof (induction t)
  case Nil
  then show ?case by simp
next
  case (Cons c t)
  have "matchHere (c # t) = None"
    using matchHere_count [of "c # t"] Cons.prems by (cases "matchHere (c # t)") auto
  moreover have "count_list t TAB < 4" using Cons.prems by (simp split: if_splits)
  ultimately show ?case using Cons.IH by simp
qed

text \<open>
  C5 (as amended). When \<open>parseIndex\<close> returns an error, it returns no entries with it: the
  entries of the lines before the failing one are dropped, and \<open>NewIndexed\<close> returns the
  error alone.
\<close>

theorem parseIndex_error_without_entries:
  "parseIndex r = Inr (entries, Some err) \<Longrightarrow>
   entries = [] \<and> NewIndexed fasta r os = Inl (Error err)"
  using parseLines_error_nil [of "scanLines r" "[]" entries err]
  by (simp add: parseIndex_def NewIndexed_def)

lemma parseIndex_seq1_bad:
  "parseIndex (seq1Index @ LF # ''bad'') = Inr ([], Some (FormatError ''bad''))"
proof -
  have "scanLines (seq1Index @ LF # ''bad'') = [seq1Index, ''bad'']"
    using scanLines_line [of seq1Index "''bad''"]
    by (simp add: seq1Index_def scanLines_last index_eval)
  then show ?thesis
    by (simp add: parseIndex_def seq1Index_def index_eval)
qed

theorem parseIndex_error_without_entries_witness:
  "parseIndex (seq1Index @ LF # ''bad'') = Inr ([], Some (FormatError ''bad'')) \<and>
   NewIndexed None (seq1Index @ LF # ''bad'') \<lparr>Enc = OtherEncoding\<rparr>
     = Inl (Error (FormatError ''bad''))"
  using parseIndex_error_without_entries [OF parseIndex_seq1_bad, of None "\<lparr>Enc = OtherEncoding\<rparr>"]
    parseIndex_seq1_bad
  by simp

text \<open>
  The claim as stated fails: the first line parses to an entry when it stands alone, and
  that entry is not returned when the malformed line \<open>bad\<close> follows it.
\<close>

theorem parseIndex_partial_entries_counterexample:
  "parseIndex seq1Index = Inr ([seq1Entry], None) \<and>
   parseIndex (seq1Index @ LF # ''bad'') = Inr ([], Some (FormatError ''bad''))"
  using parseIndex_seq1 parseIndex_seq1_bad by simp

lemma not_isDigit_TAB: "\<not> isDigit TAB"
  by (simp add: isDigit_def TAB_def)

lemma isSpace_TAB: "\<not> notSpace TAB"
  by (simp add: notSpace_def isSpace_def)

lemma tabDigits_field:
  assumes "d \<noteq> []" "list_all isDigit d"
  shows "tabDigits (TAB # d @ TAB # rest) = Some (d, TAB # rest)"
    and "tabDigits (TAB # d) = Some (d, [])"
proof -
  have t: "takeWhile isDigit (d @ TAB # rest) = d" "dropWhile isDigit (d @ TAB # rest) = TAB # rest"
    using assms(2) not_isDigit_TAB by (simp_all add: list_all_iff takeWhile_append2 dropWhile_append2)
  show "tabDigits (TAB # d @ TAB # rest) = Some (d, TAB # rest)"
    using assms(1) by (simp add: tabDigits_def t)
  have t': "takeWhile isDigit d = d" "dropWhile isDigit d = []"
    using assms(2) by (simp_all add: list_all_iff)
  show "tabDigits (TAB # d) = Some (d, [])"
    using assms(1) by (simp add: tabDigits_def t')
qed

lemma matchHere_indexLine:
  assumes nm: "nm \<noteq> []" "list_all notSpace nm"
    and d: "d1 \<noteq> []" "list_all isDigit d1" "d2 \<noteq> []" "list_all isDigit d2"
       "d3 \<noteq> []" "list_all isDigit d3" "d4 \<noteq> []" "list_all isDigit d4"
  shows "matchHere (indexLine nm d1 d2 d3 d4) = Some [indexLine nm d1 d2 d3 d4, nm, d1, d2, d3, d4]"
proof -
  have t: "takeWhile notSpace (indexLine nm d1 d2 d3 d4) = nm"
     "dropWhile notSpace (indexLine nm d1 d2 d3 d4) = TAB # d1 @ TAB # d2 @ TAB # d3 @ TAB # d4"
    using nm(2) isSpace_TAB
    by (simp_all add: indexLine_def list_all_iff takeWhile_append2 dropWhile_append2)
  show ?thesis
    unfolding matchHere_def Let_def t
    using nm(1) tabDigits_field(1) [OF d(1,2)] tabDigits_field(1) [OF d(3,4)]
      tabDigits_field(1) [OF d(5,6)] tabDigits_field(2) [OF d(7,8)]
    by (simp add: indexLine_def)
qed

lemma FindStringSubmatch_indexLine:
  assumes nm: "nm \<noteq> []" "list_all notSpace nm"
    and d: "d1 \<noteq> []" "list_all isDigit d1" "d2 \<noteq> []" "list_all isDigit d2"
       "d3 \<noteq> []" "list_all isDigit d3" "d4 \<noteq> []" "list_all isDigit d4"
  shows "FindStringSubmatch (indexLine nm d1 d2 d3 d4)
         = [indexLine nm d1 d2 d3 d4, nm, d1, d2, d3, d4]"
proof -
  obtain c s where cs: "indexLine nm d1 d2 d3 d4 = c # s"
    using nm(1) by (cases nm) (simp_all add: indexLine_def)
  show ?thesis
    using matchHere_indexLine [OF assms] unfolding cs by simp
qed

lemma ParseUint_number: "number d \<Longrightarrow> ParseUint d = Inr (of_nat (decimal d))"
  by (simp add: number_def ParseUint_def list_ex_iff list_all_iff)

lemma parseLines_indexLine:
  assumes nm: "nm \<noteq> []" "list_all notSpace nm"
    and d: "number d1" "number d2" "number d3" "number d4"
  shows "parseLines (indexLine nm d1 d2 d3 d4 # ts) acc =
         parseLines ts (acc @ [\<lparr>name = nm, length_e = of_nat (decimal d1),
           offset = of_nat (decimal d2), lineBase = of_nat (decimal d3),
           lineWidth = of_nat (decimal d4)\<rparr>])"
proof -
  have m: "FindStringSubmatch (indexLine nm d1 d2 d3 d4)
         = [indexLine nm d1 d2 d3 d4, nm, d1, d2, d3, d4]"
    using FindStringSubmatch_indexLine [OF nm] d by (simp add: number_def)
  show ?thesis
    by (simp add: m Let_def ParseUint_number d)
qed

lemma isDigit_notLF: "isDigit c \<Longrightarrow> notLF c"
  by (auto simp: isDigit_def notLF_def LF_def)

lemma notSpace_notLF: "notSpace c \<Longrightarrow> notLF c"
  by (auto simp: notSpace_def isSpace_def notLF_def)

lemma isDigit_notCR: "isDigit c \<Longrightarrow> c \<noteq> CR"
  by (auto simp: isDigit_def CR_def)

lemma scanLines_indexLine:
  assumes nm: "list_all notSpace nm"
    and d: "number d1" "number d2" "number d3" "number d4"
    and short: "length (indexLine nm d1 d2 d3 d4) < MaxScanTokenSize"
  shows "scanLines (indexLine nm d1 d2 d3 d4) = [indexLine nm d1 d2 d3 d4]"
proof -
  have ne: "indexLine nm d1 d2 d3 d4 \<noteq> []" by (simp add: indexLine_def)
  have tab: "notLF TAB" by (simp add: notLF_def TAB_def LF_def)
  have nl: "list_all notLF (indexLine nm d1 d2 d3 d4)"
    using nm d tab isDigit_notLF notSpace_notLF
    by (auto simp: indexLine_def number_def list_all_iff)
  have "last (indexLine nm d1 d2 d3 d4) = last d4"
    using d(4) by (simp add: indexLine_def number_def)
  moreover have "isDigit (last d4)" using d(4) by (simp add: number_def list_all_iff)
  ultimately have "last (indexLine nm d1 d2 d3 d4) \<noteq> CR" using isDigit_notCR by simp
  then have "dropCR (indexLine nm d1 d2 d3 d4) = indexLine nm d1 d2 d3 d4"
    by (simp add: dropCR_def)
  then show ?thesis using scanLines_last [OF ne nl short] by simp
qed

lemma parseIndex_indexLine:
  assumes nm: "nm \<noteq> []" "list_all notSpace nm"
    and d: "number d1" "number d2" "number d3" "number d4"
    and short: "length (indexLine nm d1 d2 d3 d4) < MaxScanTokenSize"
  shows "parseIndex (indexLine nm d1 d2 d3 d4) =
         Inr ([\<lparr>name = nm, length_e = of_nat (decimal d1),
           offset = of_nat (decimal d2), lineBase = of_nat (decimal d3),
           lineWidth = of_nat (decimal d4)\<rparr>], None)"
  unfolding parseIndex_def scanLines_indexLine [OF nm(2) d short]
  by (simp only: parseLines_indexLine [OF nm d] parseLines.simps(1) append_Nil)

text \<open>
  C4 (as amended). Let the lines before the line \<open>bad\<close> all parse, and let \<open>bad\<close> hold no
  match of the pattern, as every line with fewer than four tabs (fewer than five fields)
  does. Then \<open>parseIndex\<close> returns the error "Invalid index line" with that line and no
  entries, and \<open>NewIndexed\<close> returns this error: it does not panic.
\<close>

theorem NewIndexed_line_without_match:
  assumes "scanLines index = pre @ bad # post"
    and "parseLines pre [] = Inr (es, None)"
    and "FindStringSubmatch bad = []"
  shows "parseIndex index = Inr ([], Some (FormatError bad)) \<and>
         NewIndexed fasta index os = Inl (Error (FormatError bad)) \<and>
         (\<forall>t. count_list t TAB < 4 \<longrightarrow> FindStringSubmatch t = [])"
proof -
  have "parseLines (pre @ bad # post) [] = parseLines (bad # post) es"
    by (rule parseLines_append [OF assms(2)])
  then have p: "parseIndex index = Inr ([], Some (FormatError bad))"
    using assms(1,3) by (simp add: parseIndex_def)
  then show ?thesis
    using FindStringSubmatch_few_tabs by (simp add: NewIndexed_def)
qed

theorem NewIndexed_line_without_match_witness:
  "scanLines (seq1Index @ LF # ''seq2'' @ TAB # ''8'') = [seq1Index] @ (''seq2'' @ TAB # ''8'') # [] \<and>
   parseLines [seq1Index] [] = Inr ([seq1Entry], None) \<and>
   count_list (''seq2'' @ TAB # ''8'') TAB < 4 \<and>
   FindStringSubmatch (''seq2'' @ TAB # ''8'') = [] \<and>
   NewIndexed None (seq1Index @ LF # ''seq2'' @ TAB # ''8'') \<lparr>Enc = OtherEncoding\<rparr>
     = Inl (Error (FormatError (''seq2'' @ TAB # ''8'')))"
proof -
  have s: "scanLines (seq1Index @ LF # ''seq2'' @ TAB # ''8'') = [seq1Index] @ (''seq2'' @ TAB # ''8'') # []"
    using scanLines_line [of seq1Index "''seq2'' @ TAB # ''8''"]
    by (simp add: seq1Index_def scanLines_last index_eval)
  have p: "parseLines [seq1Index] [] = Inr ([seq1Entry], None)"
    by (simp add: seq1Index_def seq1Entry_def index_eval)
  have c: "count_list (''seq2'' @ TAB # ''8'') TAB < 4" by (simp add: TAB_def)
  note T = NewIndexed_line_without_match [OF s p, of None "\<lparr>Enc = OtherEncoding\<rparr>"]
  have m: "FindStringSubmatch (''seq2'' @ TAB # ''8'') = []"
    by (simp add: index_eval)
  show ?thesis using s p c m T [OF m] by simp
qed

text \<open>
  The claim as stated fails twice. A line with a sixth field is accepted: the pattern is
  not anchored, and the engine is built from the first five fields. A line whose last number
  is \<open>10^20 - 1\<close>, above \<open>2^64\<close>, matches the pattern, \<open>ParseUint\<close> fails and \<open>must.Nil\<close>
  panics.
\<close>

theorem NewIndexed_malformed_counterexample:
  "NewIndexed None (seq1Index @ TAB # ''7'') \<lparr>Enc = OtherEncoding\<rparr>
     = Inr (newLazyIndexed None [seq1Entry] \<lparr>Enc = OtherEncoding\<rparr>) \<and>
   NewIndexed None (indexLine ''seq1'' ''10'' ''0'' ''4'' ''99999999999999999999'')
       \<lparr>Enc = OtherEncoding\<rparr>
     = Inl (Panic MustNil)"
proof -
  have a: "parseIndex (seq1Index @ TAB # ''7'') = Inr ([seq1Entry], None)"
    by (simp add: seq1Index_def seq1Entry_def scanLines_last index_eval)
  have b: "parseIndex (indexLine ''seq1'' ''10'' ''0'' ''4'' ''99999999999999999999'') = Inl MustNil"
    by (simp add: indexLine_def scanLines_last index_eval)
  show ?thesis by (simp add: NewIndexed_def a b)
qed

subsection \<open>Entries that break the invariants of the layout\<close>

lemma NewIndexed_indexLine:
  assumes nm: "nm \<noteq> []" "list_all notSpace nm"
    and d: "number d1" "number d2" "number d3" "number d4"
    and short: "length (indexLine nm d1 d2 d3 d4) < MaxScanTokenSize"
  shows "NewIndexed fasta (indexLine nm d1 d2 d3 d4) os =
         Inr (newLazyIndexed fasta [\<lparr>name = nm, length_e = of_nat (decimal d1),
           offset = of_nat (decimal d2), lineBase = of_nat (decimal d3),
           lineWidth = of_nat (decimal d4)\<rparr>] os)"
  by (simp add: NewIndexed_def parseIndex_indexLine [OF assms])

text \<open>
  C9. An index line whose field for the bases of a line is zero is accepted like any other:
  the engine holds an entry with \<open>lineBase = 0\<close>. For an entry with \<open>lineBase = 0\<close>, every call
  of \<open>Get\<close> that passes the checks (the name is present, \<open>start < end \<le> length\<close>) panics with
  a division by zero and returns no error; the engine is as it was.
\<close>

theorem Get_lineBase_zero:
  "(\<forall>nm d1 d2 d3 d4 fasta os.
       nm \<noteq> [] \<and> list_all notSpace nm \<and> number d1 \<and> number d2 \<and> number d3 \<and> number d4 \<and>
       decimal d3 = 0 \<and> length (indexLine nm d1 d2 d3 d4) < MaxScanTokenSize \<longrightarrow>
       NewIndexed fasta (indexLine nm d1 d2 d3 d4) os =
         Inr (newLazyIndexed fasta [\<lparr>name = nm, length_e = of_nat (decimal d1),
           offset = of_nat (decimal d2), lineBase = 0, lineWidth = of_nat (decimal d4)\<rparr>] os)) \<and>
   (\<forall>bs f seqName ent start stop.
       seqs f seqName = Some ent \<and> lineBase ent = 0 \<and> start < stop \<and> stop \<le> length_e ent \<longrightarrow>
       Get bs f seqName start stop = (Inl (Panic DivideByZero), f))"
proof -
  have a: "NewIndexed fasta (indexLine nm d1 d2 d3 d4) os =
         Inr (newLazyIndexed fasta [\<lparr>name = nm, length_e = of_nat (decimal d1),
           offset = of_nat (decimal d2), lineBase = 0, lineWidth = of_nat (decimal d4)\<rparr>] os)"
    if "nm \<noteq> []" "list_all notSpace nm" "number d1" "number d2" "number d3" "number d4"
       "decimal d3 = 0" "length (indexLine nm d1 d2 d3 d4) < MaxScanTokenSize"
    for nm d1 d2 d3 d4 fasta os
    using NewIndexed_indexLine [OF that(1-6) that(8), of fasta os] that(7) by simp
  have b: "Get bs f seqName start stop = (Inl (Panic DivideByZero), f)"
    if "seqs f seqName = Some ent" "lineBase ent = 0" "start < stop" "stop \<le> length_e ent"
    for bs f seqName ent start stop
  proof -
    have c1: "\<not> stop \<le> start" using that(3) by simp
    have c2: "\<not> stop > length_e ent" using that(4) by simp
    show ?thesis using that(1,2) c1 c2 by (simp add: Get_def)
  qed
  show ?thesis using a b by blast
qed


theorem Get_lineBase_zero_witness:
  "''seq1'' \<noteq> [] \<and> list_all notSpace ''seq1'' \<and> number ''10'' \<and> number ''0'' \<and> number ''5'' \<and>
   decimal ''0'' = 0 \<and> length (indexLine ''seq1'' ''10'' ''0'' ''0'' ''5'') < MaxScanTokenSize \<and>
   NewIndexed (Some \<lparr>content = seq1Data, pos = 0\<rparr>) (indexLine ''seq1'' ''10'' ''0'' ''0'' ''5'')
       \<lparr>Enc = OtherEncoding\<rparr>
     = Inr (seq1Engine\<lparr>seqs := [''seq1'' \<mapsto> seq1Entry\<lparr>lineBase := 0\<rparr>]\<rparr>) \<and>
   seqs (seq1Engine\<lparr>seqs := [''seq1'' \<mapsto> seq1Entry\<lparr>lineBase := 0\<rparr>]\<rparr>) ''seq1''
     = Some (seq1Entry\<lparr>lineBase := 0\<rparr>) \<and>
   lineBase (seq1Entry\<lparr>lineBase := 0\<rparr>) = 0 \<and> (2 :: uint64) < 8 \<and>
   8 \<le> length_e (seq1Entry\<lparr>lineBase := 0\<rparr>) \<and>
   fst (Get noBiosimd (seq1Engine\<lparr>seqs := [''seq1'' \<mapsto> seq1Entry\<lparr>lineBase := 0\<rparr>]\<rparr>) ''seq1'' 2 8)
     = Inl (Panic DivideByZero)"
proof -
  have n: "''seq1'' \<noteq> []" "list_all notSpace ''seq1''" "number ''10''" "number ''0''" "number ''5''"
    "decimal ''0'' = 0" "length (indexLine ''seq1'' ''10'' ''0'' ''0'' ''5'') < MaxScanTokenSize"
    by (simp_all add: number_def indexLine_def index_eval)
  have d: "decimal ''10'' = 10" "decimal ''5'' = 5" by (simp_all add: index_eval)
  have h: "seqs (seq1Engine\<lparr>seqs := [''seq1'' \<mapsto> seq1Entry\<lparr>lineBase := 0\<rparr>]\<rparr>) ''seq1''
     = Some (seq1Entry\<lparr>lineBase := 0\<rparr>)"
    "lineBase (seq1Entry\<lparr>lineBase := 0\<rparr>) = 0" "(2 :: uint64) < 8"
    "8 \<le> length_e (seq1Entry\<lparr>lineBase := 0\<rparr>)"
    by (simp_all add: seq1Entry_def)
  note T = Get_lineBase_zero
  have a: "NewIndexed (Some \<lparr>content = seq1Data, pos = 0\<rparr>) (indexLine ''seq1'' ''10'' ''0'' ''0'' ''5'')
       \<lparr>Enc = OtherEncoding\<rparr>
     = Inr (newLazyIndexed (Some \<lparr>content = seq1Data, pos = 0\<rparr>)
         [\<lparr>name = ''seq1'', length_e = of_nat (decimal ''10''),
           offset = of_nat (decimal ''0''), lineBase = 0, lineWidth = of_nat (decimal ''5'')\<rparr>]
         \<lparr>Enc = OtherEncoding\<rparr>)"
    using T n by blast
  have a': "NewIndexed (Some \<lparr>content = seq1Data, pos = 0\<rparr>) (indexLine ''seq1'' ''10'' ''0'' ''0'' ''5'')
       \<lparr>Enc = OtherEncoding\<rparr>
     = Inr (seq1Engine\<lparr>seqs := [''seq1'' \<mapsto> seq1Entry\<lparr>lineBase := 0\<rparr>]\<rparr>)"
    unfolding a by (simp add: d n(6) seq1Engine_def seq1Entry_def newLazyIndexed_def)
  have b: "Get noBiosimd (seq1Engine\<lparr>seqs := [''seq1'' \<mapsto> seq1Entry\<lparr>lineBase := 0\<rparr>]\<rparr>) ''seq1'' 2 8
     = (Inl (Panic DivideByZero), seq1Engine\<lparr>seqs := [''seq1'' \<mapsto> seq1Entry\<lparr>lineBase := 0\<rparr>]\<rparr>)"
    using T h by blast
  show ?thesis using n a' h b by simp
qed

lemma physOffset_cancel:
  "physOffset ent start =
     offset ent + lineWidth ent * (start div lineBase ent) + start mod lineBase ent"
proof -
  have "start = (start div lineBase ent) * lineBase ent + start mod lineBase ent"
    by (rule word_mod_div_equality [symmetric])
  then have "offset ent + start + (lineWidth ent - lineBase ent) * (start div lineBase ent)
      = offset ent + ((start div lineBase ent) * lineBase ent + start mod lineBase ent)
        + (lineWidth ent - lineBase ent) * (start div lineBase ent)"
    by simp
  also have "\<dots> = offset ent + lineWidth ent * (start div lineBase ent) + start mod lineBase ent"
    by (simp add: algebra_simps)
  finally show ?thesis by (simp add: physOffset_def charsPerNewline_def)
qed

lemma physOffset_narrow_unat:
  assumes n: "lineWidth ent < lineBase ent" and nw: "unat (offset ent) + unat start < 2 ^ 64"
  shows "unat (physOffset ent start) =
           unat (offset ent) + unat (lineWidth ent) * (unat start div unat (lineBase ent))
             + unat start mod unat (lineBase ent)"
    and "unat (physOffset ent start) \<le> unat (offset ent) + unat start"
proof -
  define L where "L = unat (lineBase ent)"
  define W where "W = unat (lineWidth ent)"
  define s where "s = unat start"
  have WL: "W < L" using n by (simp add: L_def W_def word_less_nat_alt)
  have "W * (s div L) \<le> L * (s div L)" using WL by simp
  moreover have "L * (s div L) + s mod L = s" by simp
  ultimately have le: "W * (s div L) + s mod L \<le> s" by linarith
  have q: "unat (start div lineBase ent) = s div L" by (simp add: unat_div s_def L_def)
  have r: "unat (start mod lineBase ent) = s mod L" by (simp add: unat_mod s_def L_def)
  have m: "unat (lineWidth ent * (start div lineBase ent)) = W * (s div L)"
    using unat_mult_nowrap [of "lineWidth ent" "start div lineBase ent"] le nw
    by (simp add: q W_def s_def)
  have a1: "unat (offset ent + lineWidth ent * (start div lineBase ent))
            = unat (offset ent) + W * (s div L)"
    using unat_add_nowrap [of "offset ent" "lineWidth ent * (start div lineBase ent)"] le nw
    by (simp add: m s_def)
  have a2: "unat (offset ent + lineWidth ent * (start div lineBase ent) + start mod lineBase ent)
            = unat (offset ent) + W * (s div L) + s mod L"
    using unat_add_nowrap [of "offset ent + lineWidth ent * (start div lineBase ent)"
        "start mod lineBase ent"] le nw
    by (simp add: a1 r s_def)
  show "unat (physOffset ent start) =
           unat (offset ent) + unat (lineWidth ent) * (unat start div unat (lineBase ent))
             + unat start mod unat (lineBase ent)"
    unfolding physOffset_cancel a2 by (simp add: L_def W_def s_def)
  then show "unat (physOffset ent start) \<le> unat (offset ent) + unat start"
    using le by (simp add: L_def W_def s_def)
qed

lemma charsPerNewline_narrow:
  assumes "lineWidth ent < lineBase ent"
  shows "unat (charsPerNewline ent) = 2 ^ 64 - (unat (lineBase ent) - unat (lineWidth ent))"
proof -
  have "unat (lineWidth ent) < unat (lineBase ent)" using assms by (simp add: word_less_nat_alt)
  moreover have "unat (lineBase ent) < 2 ^ 64"
    using unsigned_less [of "lineBase ent", where 'a = nat] by simp
  ultimately show ?thesis
    unfolding charsPerNewline_def unat_sub_if_size by (simp add: word_size)
qed

text \<open>
  C10 (as amended). An index line whose bytes per line are fewer than its bases per line is
  accepted like any other. For an entry with \<open>lineWidth < lineBase\<close>, \<open>charsPerNewline\<close> is
  the wrapped difference \<open>2^64 - (lineBase - lineWidth)\<close>; in the offset the wrap cancels:
  \<open>physOffset\<close> is \<open>offset + lineWidth * (start div lineBase) + start mod lineBase\<close> modulo
  \<open>2^64\<close>, and when \<open>offset + start\<close> is below \<open>2^64\<close> it is this number itself, at most
  \<open>offset + start\<close>.
\<close>

theorem narrow_lines_offset:
  "(\<forall>nm d1 d2 d3 d4 fasta os.
       nm \<noteq> [] \<and> list_all notSpace nm \<and> number d1 \<and> number d2 \<and> number d3 \<and> number d4 \<and>
       decimal d4 < decimal d3 \<and> length (indexLine nm d1 d2 d3 d4) < MaxScanTokenSize \<longrightarrow>
       NewIndexed fasta (indexLine nm d1 d2 d3 d4) os =
         Inr (newLazyIndexed fasta [\<lparr>name = nm, length_e = of_nat (decimal d1),
           offset = of_nat (decimal d2), lineBase = of_nat (decimal d3),
           lineWidth = of_nat (decimal d4)\<rparr>] os)) \<and>
   (\<forall>ent start.
       lineWidth ent < lineBase ent \<longrightarrow>
       unat (charsPerNewline ent) = 2 ^ 64 - (unat (lineBase ent) - unat (lineWidth ent)) \<and>
       physOffset ent start =
         offset ent + lineWidth ent * (start div lineBase ent) + start mod lineBase ent \<and>
       (unat (offset ent) + unat start < 2 ^ 64 \<longrightarrow>
          unat (physOffset ent start) =
            unat (offset ent) + unat (lineWidth ent) * (unat start div unat (lineBase ent))
              + unat start mod unat (lineBase ent) \<and>
          unat (physOffset ent start) \<le> unat (offset ent) + unat start))"
  using NewIndexed_indexLine charsPerNewline_narrow physOffset_cancel physOffset_narrow_unat
  by blast

lemma narrow_accepted:
  "NewIndexed (Some \<lparr>content = seq1Data, pos = 0\<rparr>) (indexLine ''seq1'' ''10'' ''0'' ''5'' ''4'')
       \<lparr>Enc = OtherEncoding\<rparr>
     = Inr (seq1Engine\<lparr>seqs := [''seq1'' \<mapsto> narrowEntry]\<rparr>)"
proof -
  have n: "''seq1'' \<noteq> []" "list_all notSpace ''seq1''" "number ''10''" "number ''0''"
    "number ''5''" "number ''4''"
    "length (indexLine ''seq1'' ''10'' ''0'' ''5'' ''4'') < MaxScanTokenSize"
    by (simp_all add: number_def indexLine_def index_eval)
  have d: "decimal ''10'' = 10" "decimal ''0'' = 0" "decimal ''5'' = 5" "decimal ''4'' = 4"
    by (simp_all add: index_eval)
  show ?thesis
    unfolding NewIndexed_indexLine [OF n]
    by (simp add: d seq1Engine_def narrowEntry_def newLazyIndexed_def)
qed

theorem narrow_lines_offset_witness:
  "''seq1'' \<noteq> [] \<and> list_all notSpace ''seq1'' \<and> number ''10'' \<and> number ''0'' \<and> number ''5'' \<and>
   number ''4'' \<and> decimal ''4'' < decimal ''5'' \<and>
   length (indexLine ''seq1'' ''10'' ''0'' ''5'' ''4'') < MaxScanTokenSize \<and>
   NewIndexed None (indexLine ''seq1'' ''10'' ''0'' ''5'' ''4'') \<lparr>Enc = OtherEncoding\<rparr>
     = Inr (newLazyIndexed None [narrowEntry] \<lparr>Enc = OtherEncoding\<rparr>) \<and>
   lineWidth narrowEntry < lineBase narrowEntry \<and>
   unat (offset narrowEntry) + unat (5 :: uint64) < 2 ^ 64 \<and>
   unat (charsPerNewline narrowEntry) = 2 ^ 64 - 1 \<and>
   unat (physOffset narrowEntry 5) = 4 \<and>
   unat (physOffset narrowEntry 5) \<le> unat (offset narrowEntry) + unat (5 :: uint64)"
proof -
  have n: "''seq1'' \<noteq> []" "list_all notSpace ''seq1''" "number ''10''" "number ''0''"
    "number ''5''" "number ''4''" "decimal ''4'' < decimal ''5''"
    "length (indexLine ''seq1'' ''10'' ''0'' ''5'' ''4'') < MaxScanTokenSize"
    by (simp_all add: number_def indexLine_def index_eval)
  have d: "decimal ''10'' = 10" "decimal ''0'' = 0" "decimal ''5'' = 5" "decimal ''4'' = 4"
    by (simp_all add: index_eval)
  have h: "lineWidth narrowEntry < lineBase narrowEntry"
    "unat (offset narrowEntry) + unat (5 :: uint64) < 2 ^ 64"
    by (simp_all add: narrowEntry_def)
  note T0 = narrow_lines_offset
  have a: "NewIndexed None (indexLine ''seq1'' ''10'' ''0'' ''5'' ''4'') \<lparr>Enc = OtherEncoding\<rparr>
     = Inr (newLazyIndexed None [\<lparr>name = ''seq1'', length_e = of_nat (decimal ''10''),
           offset = of_nat (decimal ''0''), lineBase = of_nat (decimal ''5''),
           lineWidth = of_nat (decimal ''4'')\<rparr>] \<lparr>Enc = OtherEncoding\<rparr>)"
    using T0 n by blast
  have a': "NewIndexed None (indexLine ''seq1'' ''10'' ''0'' ''5'' ''4'') \<lparr>Enc = OtherEncoding\<rparr>
     = Inr (newLazyIndexed None [narrowEntry] \<lparr>Enc = OtherEncoding\<rparr>)"
    unfolding a by (simp add: d narrowEntry_def)
  have T: "unat (charsPerNewline narrowEntry)
           = 2 ^ 64 - (unat (lineBase narrowEntry) - unat (lineWidth narrowEntry))"
     "unat (physOffset narrowEntry 5) =
            unat (offset narrowEntry)
              + unat (lineWidth narrowEntry) * (unat (5 :: uint64) div unat (lineBase narrowEntry))
              + unat (5 :: uint64) mod unat (lineBase narrowEntry)"
     "unat (physOffset narrowEntry 5) \<le> unat (offset narrowEntry) + unat (5 :: uint64)"
    using T0 h by blast+
  have v: "unat (charsPerNewline narrowEntry) = 2 ^ 64 - 1" "unat (physOffset narrowEntry 5) = 4"
    using T(1,2) by (simp_all add: narrowEntry_def)
  show ?thesis
    using n a' h v T(3) by simp
qed

lemma narrow_Get:
  "fst (Get noBiosimd (seq1Engine\<lparr>seqs := [''seq1'' \<mapsto> narrowEntry]\<rparr>) ''seq1'' 5 6) = Inr [LF]"
proof -
  define f where "f = seq1Engine\<lparr>seqs := [''seq1'' \<mapsto> narrowEntry]\<rparr>"
  have ok: "cacheOK f seq1Data"
    using seq1Engine_cacheOK by (simp add: f_def cacheOK_def split: option.splits)
  have rb: "resultBuf f = nilSlice" "opts f = \<lparr>Enc = OtherEncoding\<rparr>"
    by (simp_all add: f_def seq1Engine_def newLazyIndexed_def)
  have c: "physOffset narrowEntry 5 = 4" "capacity narrowEntry 5 6 = 1"
    by (simp_all add: narrowEntry_def physOffset_def capacity_def newlinesToRead_def
        firstLineBases_def charsPerNewline_def)
  obtain buffer f1 where rd: "read f 4 1 = (buffer, f1)" by (cases "read f 4 1")
  have r: "buffer = Inr [LF]" "resultBuf f1 = nilSlice" "opts f1 = \<lparr>Enc = OtherEncoding\<rparr>"
    using read_ok [OF ok, of 4 1] rd rb by (simp_all add: seq1Data_def)
  have ent: "seqs f ''seq1'' = Some narrowEntry" by (simp add: f_def)
  have e: "length_e narrowEntry = 10" "lineBase narrowEntry = 5" "lineWidth narrowEntry = 4"
    "offset narrowEntry = 0"
    by (simp_all add: narrowEntry_def)
  have "fst (Get noBiosimd f ''seq1'' 5 6) = Inr [LF]"
    unfolding Get_def
    by (simp add: ent e c rd r resizeBuf_def nilSlice_def encodeInplace_def bytesOf_def)
  then show ?thesis by (simp add: f_def)
qed

text \<open>
  The claim as stated fails: the line \<open>seq1 10 0 5 4\<close> is accepted and
  \<open>charsPerNewline\<close> is \<open>2^64 - 1\<close>, but the offset computed for \<open>start = 5\<close> is \<open>4\<close>, and for
  \<open>start = 2\<close> it is \<open>2\<close>: neither is near \<open>2^64\<close>. \<open>Get("seq1", 5, 6)\<close> reads the byte at
  offset 4 and returns it.
\<close>

theorem narrow_lines_offset_counterexample:
  "NewIndexed (Some \<lparr>content = seq1Data, pos = 0\<rparr>) (indexLine ''seq1'' ''10'' ''0'' ''5'' ''4'')
       \<lparr>Enc = OtherEncoding\<rparr>
     = Inr (seq1Engine\<lparr>seqs := [''seq1'' \<mapsto> narrowEntry]\<rparr>) \<and>
   lineWidth narrowEntry < lineBase narrowEntry \<and>
   charsPerNewline narrowEntry = 0xFFFFFFFFFFFFFFFF \<and>
   physOffset narrowEntry 5 = 4 \<and> physOffset narrowEntry 2 = 2 \<and>
   fst (Get noBiosimd (seq1Engine\<lparr>seqs := [''seq1'' \<mapsto> narrowEntry]\<rparr>) ''seq1'' 5 6)
     = Inr [LF]"
  using narrow_accepted narrow_Get
  by (simp add: narrowEntry_def charsPerNewline_def physOffset_def)

subsection \<open>A name on several lines of the index\<close>

lemma catalog_other:
  "list_all (\<lambda>x. name x \<noteq> n) es \<Longrightarrow>
   foldl (\<lambda>m entry. m(name entry \<mapsto> entry)) m0 es n = m0 n"
  by (induction es arbitrary: m0) auto

lemma catalog_last:
  assumes "list_all (\<lambda>x. name x \<noteq> name e) es2"
  shows "foldl (\<lambda>m entry. m(name entry \<mapsto> entry)) m0 (es1 @ e # es2) (name e) = Some e"
  using catalog_other [OF assms] by simp

lemma refill_seqs:
  "refill (f\<lparr>seqs := m\<rparr>) off n limit =
     (fst (refill f off n limit), (snd (refill f off n limit))\<lparr>seqs := m\<rparr>)"
  by (simp add: refill_def Let_def split: option.splits prod.splits sum.splits)

lemma read_seqs:
  "read (f\<lparr>seqs := m\<rparr>) off n = (fst (read f off n), (snd (read f off n))\<lparr>seqs := m\<rparr>)"
  by (simp add: read_def refill_seqs window_def Let_def split: option.splits prod.splits sum.splits)

lemma Get_seqs:
  assumes "m seqName = seqs f seqName"
  shows "fst (Get bs (f\<lparr>seqs := m\<rparr>) seqName start stop) = fst (Get bs f seqName start stop)"
  using assms
  by (simp add: Get_def read_seqs Let_def split: option.splits prod.splits sum.splits)


text \<open>
  C7. When a name stands on several lines of the index, the catalog built by
  \<open>newLazyIndexed\<close> maps it to the entry of the last of these lines: \<open>Len\<close> returns the
  length of that entry, and \<open>Get\<close> returns what it returns on an engine built from that
  entry alone.
\<close>

theorem catalog_last_entry_wins:
  assumes "list_all (\<lambda>x. name x \<noteq> name e) es2"
  shows "seqs (newLazyIndexed fasta (es1 @ e # es2) os) (name e) = Some e \<and>
         Len (newLazyIndexed fasta (es1 @ e # es2) os) (name e) = Inr (length_e e) \<and>
         fst (Get bs (newLazyIndexed fasta (es1 @ e # es2) os) (name e) start stop)
           = fst (Get bs (newLazyIndexed fasta [e] os) (name e) start stop)"
proof -
  have s: "seqs (newLazyIndexed fasta (es1 @ e # es2) os) (name e) = Some e"
    unfolding newLazyIndexed_def using catalog_last [OF assms, of Map.empty es1] by simp
  have one: "seqs (newLazyIndexed fasta [e] os) (name e) = Some e"
    by (simp add: newLazyIndexed_def)
  have "newLazyIndexed fasta (es1 @ e # es2) os
        = (newLazyIndexed fasta [e] os)\<lparr>seqs := seqs (newLazyIndexed fasta (es1 @ e # es2) os)\<rparr>"
    by (simp add: newLazyIndexed_def)
  then have "fst (Get bs (newLazyIndexed fasta (es1 @ e # es2) os) (name e) start stop)
           = fst (Get bs (newLazyIndexed fasta [e] os) (name e) start stop)"
    using Get_seqs [of "seqs (newLazyIndexed fasta (es1 @ e # es2) os)" "name e"
        "newLazyIndexed fasta [e] os" bs start stop] s one
    by simp
  then show ?thesis using s by (simp add: Len_def)
qed

theorem catalog_last_entry_wins_witness:
  "list_all (\<lambda>x. name x \<noteq> name seq1Entry) [] \<and>
   name (seq1Entry\<lparr>length_e := 4\<rparr>) = name seq1Entry \<and>
   seqs (newLazyIndexed (Some \<lparr>content = seq1Data, pos = 0\<rparr>)
           [seq1Entry\<lparr>length_e := 4\<rparr>, seq1Entry] \<lparr>Enc = OtherEncoding\<rparr>) ''seq1''
     = Some seq1Entry \<and>
   Len (newLazyIndexed (Some \<lparr>content = seq1Data, pos = 0\<rparr>)
           [seq1Entry\<lparr>length_e := 4\<rparr>, seq1Entry] \<lparr>Enc = OtherEncoding\<rparr>) ''seq1''
     = Inr 10 \<and>
   fst (Get noBiosimd
          (newLazyIndexed (Some \<lparr>content = seq1Data, pos = 0\<rparr>)
             [seq1Entry\<lparr>length_e := 4\<rparr>, seq1Entry] \<lparr>Enc = OtherEncoding\<rparr>) ''seq1'' 2 8)
     = Inr ''GTACGT''"
proof -
  have h: "list_all (\<lambda>x. name x \<noteq> name seq1Entry) []" by simp
  have n: "name seq1Entry = ''seq1''" "length_e seq1Entry = 10" by (simp_all add: seq1Entry_def)
  note T = catalog_last_entry_wins [OF h, of "Some \<lparr>content = seq1Data, pos = 0\<rparr>"
      "[seq1Entry\<lparr>length_e := 4\<rparr>]" "\<lparr>Enc = OtherEncoding\<rparr>" noBiosimd 2 8,
      unfolded n seq1Engine_def [symmetric]]
  show ?thesis
    using T seq1_Get_2_8 [of noBiosimd] by (simp add: n)
qed

end
